theory Spec2Isabelle
  imports Complex_Main
begin

section \<open>Strings and numbers as the analyzers use them\<close>

text \<open>
  \<^verbatim>\<open>String.prototype.startsWith\<close> and \<^verbatim>\<open>String.prototype.includes\<close> on
  plain strings, and the decimal rendering of an integer inside a template literal.
\<close>

definition startsWith :: "string \<Rightarrow> string \<Rightarrow> bool" where
  "startsWith s p = (take (length p) s = p)"

primrec str_includes :: "string \<Rightarrow> string \<Rightarrow> bool" where
  "str_includes [] p = (p = [])"
| "str_includes (c # cs) p = (startsWith (c # cs) p \<or> str_includes cs p)"

definition digit :: "nat \<Rightarrow> char" where
  "digit d = ''0123456789'' ! d"

fun show_nat :: "nat \<Rightarrow> string" where
  "show_nat n = (if n < 10 then [digit n] else show_nat (n div 10) @ [digit (n mod 10)])"

declare show_nat.simps [simp del]

definition show_int :: "int \<Rightarrow> string" where
  "show_int i = (if i < 0 then CHR ''-'' # show_nat (nat (- i)) else show_nat (nat i))"

section \<open>Syntax-tree nodes\<close>

text \<open>
  The analyzers read the parser's nodes by property name. A node carries its \<^verbatim>\<open>type\<close>
  tag, its location (start line and end line of \<^verbatim>\<open>loc\<close>, when present), its
  string-valued properties (\<^verbatim>\<open>name\<close>), the properties that hold one node
  (\<^verbatim>\<open>id\<close>, \<^verbatim>\<open>init\<close>, \<^verbatim>\<open>callee\<close>, \<^verbatim>\<open>parent\<close>, ...) and the properties that
  hold an array of nodes (\<^verbatim>\<open>declarations\<close>, \<^verbatim>\<open>arguments\<close>, ...). A property that is
  absent, \<^verbatim>\<open>null\<close> or \<^verbatim>\<open>undefined\<close> is absent from the lists; \<^verbatim>\<open>null\<close> holes of an
  array are left out, since every traversal returns at once on them. The \<^verbatim>\<open>parent\<close>
  property holds the chain of enclosing nodes, of which only \<^verbatim>\<open>type\<close> and
  \<^verbatim>\<open>parent\<close> are ever read.
\<close>

datatype node = Node
  (ntype: string)
  (nloc: "(int \<times> int) option")
  (nstrs: "(string \<times> string) list")
  (nsingles: "(string \<times> node) list")
  (narrays: "(string \<times> node list) list")

definition get_str :: "node \<Rightarrow> string \<Rightarrow> string option" where
  "get_str n k = map_of (nstrs n) k"

definition get_one :: "node \<Rightarrow> string \<Rightarrow> node option" where
  "get_one n k = map_of (nsingles n) k"

definition get_arr :: "node \<Rightarrow> string \<Rightarrow> node list option" where
  "get_arr n k = map_of (narrays n) k"

text \<open>\<^verbatim>\<open>if (node.k) traverse(node.k)\<close>: an array in such a place has no properties
  of its own, so the call does nothing; only a node is followed.\<close>

definition visit_one :: "(node \<Rightarrow> 's \<Rightarrow> 's) \<Rightarrow> node \<Rightarrow> string \<Rightarrow> 's \<Rightarrow> 's" where
  "visit_one f n k s = (case get_one n k of None \<Rightarrow> s | Some x \<Rightarrow> f x s)"

text \<open>\<^verbatim>\<open>if (node.k) node.k.forEach(traverse)\<close>\<close>

definition visit_all :: "(node \<Rightarrow> 's \<Rightarrow> 's) \<Rightarrow> node \<Rightarrow> string \<Rightarrow> 's \<Rightarrow> 's" where
  "visit_all f n k s = (case get_arr n k of None \<Rightarrow> s | Some xs \<Rightarrow> fold f xs s)"

text \<open>\<^verbatim>\<open>if (node.body) { if (Array.isArray(node.body)) node.body.forEach(traverse);
  else traverse(node.body); }\<close>\<close>

definition visit_body :: "(node \<Rightarrow> 's \<Rightarrow> 's) \<Rightarrow> node \<Rightarrow> 's \<Rightarrow> 's" where
  "visit_body f n s = (case get_arr n ''body'' of Some xs \<Rightarrow> fold f xs s
                       | None \<Rightarrow> visit_one f n ''body'' s)"

text \<open>\<^verbatim>\<open>node.callee?.name\<close>, \<^verbatim>\<open>node.callee?.object?.name\<close>,
  \<^verbatim>\<open>node.callee?.property?.name\<close>, \<^verbatim>\<open>node.object?.name\<close>\<close>

definition path_str :: "node \<Rightarrow> string list \<Rightarrow> string \<Rightarrow> string option" where
  "path_str n ks k =
     (case fold (\<lambda>k m. case m of None \<Rightarrow> None | Some x \<Rightarrow> get_one x k) ks (Some n) of
        None \<Rightarrow> None | Some x \<Rightarrow> get_str x k)"

section \<open>Files and issues\<close>

text \<open>\<^verbatim>\<open>FileNode\<close> of the scanner; the three flags are those of \<^verbatim>\<open>metadata\<close>,
  read only for truthiness (\<^verbatim>\<open>file.metadata?.isPage\<close>), so a missing
  \<^verbatim>\<open>metadata\<close> is all three flags false.\<close>

record FileNode =
  fn_name :: string
  fn_path :: string
  fn_size :: "nat option"
  fn_extension :: "string option"
  fn_isPage :: bool
  fn_isComponent :: bool
  fn_isLayout :: bool

datatype principle = SRP | OCP | LSP | ISP | DIP

datatype severity = Info | Warning | Critical

record SolidIssue =
  si_id :: string
  si_principle :: principle
  si_severity :: severity
  si_description :: string
  si_filePath :: string
  si_recommendation :: string

section \<open>Single responsibility: size and mixed concerns\<close>

definition loc_lines :: "int \<times> int \<Rightarrow> int" where
  "loc_lines l = snd l - fst l + 1"

definition getComponentSize :: "node \<Rightarrow> int" where
  "getComponentSize component =
     (case (if ntype component = ''FunctionDeclaration'' \<or>
               ntype component = ''ArrowFunctionExpression'' \<or>
               ntype component = ''FunctionExpression''
            then nloc component else None) of
        Some l \<Rightarrow> loc_lines l
      | None \<Rightarrow>
     (case (if ntype component = ''ClassDeclaration''
            then (case get_one component ''body'' of None \<Rightarrow> None | Some b \<Rightarrow> nloc b)
            else None) of
        Some l \<Rightarrow> loc_lines l
      | None \<Rightarrow>
     (case (if ntype component = ''VariableDeclarator''
            then (case get_one component ''init'' of None \<Rightarrow> None | Some i \<Rightarrow> nloc i)
            else None) of
        Some l \<Rightarrow> loc_lines l
      | None \<Rightarrow> 50)))"

text \<open>\<^verbatim>\<open>component.id?.name || 'UnnamedComponent'\<close>: the empty name is falsy.\<close>

definition componentNameOf :: "node \<Rightarrow> string" where
  "componentNameOf component =
     (case path_str component [''id''] ''name'' of
        None \<Rightarrow> ''UnnamedComponent''
      | Some s \<Rightarrow> if s = [] then ''UnnamedComponent'' else s)"

record concerns =
  hasApiCalls :: bool
  hasStateManagement :: bool
  hasComplexLogic :: bool

definition isHttpVerb :: "string option \<Rightarrow> bool" where
  "isHttpVerb p = (p = Some ''get'' \<or> p = Some ''post'' \<or> p = Some ''put'' \<or> p = Some ''delete'')"

definition mixed_mark :: "node \<Rightarrow> concerns \<Rightarrow> concerns" where
  "mixed_mark n s =
    (let s = (if ntype n = ''CallExpression'' \<and>
                 (path_str n [''callee''] ''name'' = Some ''fetch'' \<or>
                  path_str n [''callee'', ''object''] ''name'' = Some ''axios'' \<or>
                  path_str n [''callee'', ''object''] ''name'' = Some ''http'' \<or>
                  isHttpVerb (path_str n [''callee'', ''property''] ''name''))
              then s\<lparr>hasApiCalls := True\<rparr> else s);
         s = (if ntype n = ''CallExpression'' \<and>
                 (path_str n [''callee''] ''name'' = Some ''useState'' \<or>
                  path_str n [''callee''] ''name'' = Some ''useReducer'' \<or>
                  path_str n [''callee'', ''property''] ''name'' = Some ''setState'')
              then s\<lparr>hasStateManagement := True\<rparr> else s);
         s = (if ntype n = ''IfStatement'' \<or> ntype n = ''ForStatement'' \<or>
                 ntype n = ''WhileStatement'' \<or> ntype n = ''SwitchStatement''
              then s\<lparr>hasComplexLogic := True\<rparr> else s)
     in s)"

lemma size_map_of_one:
  "map_of xs k = Some v \<Longrightarrow> size v < Suc (size_list (size_prod (\<lambda>_. 0) size) xs)"
  by (induction xs) (auto split: if_splits)

lemma size_map_of_arr:
  "map_of xs k = Some vs \<Longrightarrow> v \<in> set vs \<Longrightarrow>
    size v < Suc (size_list (size_prod (\<lambda>_. 0) (size_list size)) xs)"
proof (induction xs)
  case Nil
  then show ?case by simp
next
  case (Cons a xs)
  show ?case
  proof (cases "fst a = k")
    case True
    with Cons.prems have "snd a = vs" by (cases a) auto
    moreover have "size v < Suc (size_list size vs)"
      using Cons.prems(2) by (induction vs) auto
    ultimately show ?thesis by (cases a) auto
  next
    case False
    with Cons show ?thesis by (cases a) (auto split: if_splits)
  qed
qed

lemma get_one_size: "get_one n k = Some v \<Longrightarrow> size v < size n"
  using size_map_of_one[of "nsingles n" k v] by (cases n) (auto simp: get_one_def)

lemma get_arr_size: "get_arr n k = Some vs \<Longrightarrow> v \<in> set vs \<Longrightarrow> size v < size n"
  using size_map_of_arr[of "narrays n" k vs v] by (cases n) (auto simp: get_arr_def)

lemma visit_one_cong [fundef_cong]:
  "n = n' \<Longrightarrow> k = k' \<Longrightarrow> s = s' \<Longrightarrow> (\<And>x. get_one n' k' = Some x \<Longrightarrow> f x s' = g x s')
    \<Longrightarrow> visit_one f n k s = visit_one g n' k' s'"
  by (auto simp: visit_one_def split: option.splits)

lemma visit_all_cong [fundef_cong]:
  "n = n' \<Longrightarrow> k = k' \<Longrightarrow> s = s' \<Longrightarrow>
   (\<And>xs x t. get_arr n' k' = Some xs \<Longrightarrow> x \<in> set xs \<Longrightarrow> f x t = g x t)
    \<Longrightarrow> visit_all f n k s = visit_all g n' k' s'"
  by (auto simp: visit_all_def split: option.splits intro!: fold_cong)

lemma visit_body_cong [fundef_cong]:
  "n = n' \<Longrightarrow> s = s' \<Longrightarrow>
   (\<And>xs x t. get_arr n' ''body'' = Some xs \<Longrightarrow> x \<in> set xs \<Longrightarrow> f x t = g x t) \<Longrightarrow>
   (\<And>x. get_arr n' ''body'' = None \<Longrightarrow> get_one n' ''body'' = Some x \<Longrightarrow> f x s' = g x s')
    \<Longrightarrow> visit_body f n s = visit_body g n' s'"
  by (auto simp: visit_body_def visit_one_def split: option.splits intro!: fold_cong)

function hasMixedConcerns_traverse :: "node \<Rightarrow> concerns \<Rightarrow> concerns" where
  "hasMixedConcerns_traverse n s =
    (let s = mixed_mark n s;
         s = visit_body hasMixedConcerns_traverse n s;
         s = visit_one hasMixedConcerns_traverse n ''consequent'' s;
         s = visit_one hasMixedConcerns_traverse n ''alternate'' s;
         s = visit_one hasMixedConcerns_traverse n ''block'' s;
         s = visit_all hasMixedConcerns_traverse n ''declarations'' s;
         s = visit_one hasMixedConcerns_traverse n ''init'' s;
         s = visit_one hasMixedConcerns_traverse n ''expression'' s;
         s = visit_all hasMixedConcerns_traverse n ''arguments'' s
     in s)"
  by pat_completeness auto
termination
  by (relation "measure (\<lambda>(n, s). size n)") (auto simp: get_one_size get_arr_size)

declare hasMixedConcerns_traverse.simps [simp del]

definition hasMixedConcerns :: "node \<Rightarrow> bool" where
  "hasMixedConcerns component =
    (let s = hasMixedConcerns_traverse component
               \<lparr>hasApiCalls = False, hasStateManagement = False, hasComplexLogic = False\<rparr>
     in (hasApiCalls s \<and> hasStateManagement s) \<or>
        (hasApiCalls s \<and> hasComplexLogic s) \<or>
        (hasStateManagement s \<and> hasComplexLogic s))"

text \<open>The body of the loop of \<^verbatim>\<open>analyzeSRP\<close>, for one component.\<close>

definition analyzeSRP_component :: "FileNode \<Rightarrow> node \<Rightarrow> SolidIssue list" where
  "analyzeSRP_component file component =
    (let componentName = componentNameOf component;
         componentSize = getComponentSize component
     in (if componentSize > 200 then
           [\<lparr>si_id = ''srp-large-component-'' @ fn_path file @ ''-'' @ componentName,
             si_principle = SRP,
             si_severity = Critical,
             si_description = ''Component '' @ componentName @ '' is too large ('' @
               show_int componentSize @ '' lines) and likely has multiple responsibilities'',
             si_filePath = fn_path file,
             si_recommendation = ''Split this component into smaller, focused components each with a single responsibility''\<rparr>]
         else if componentSize > 100 then
           [\<lparr>si_id = ''srp-medium-component-'' @ fn_path file @ ''-'' @ componentName,
             si_principle = SRP,
             si_severity = Warning,
             si_description = ''Component '' @ componentName @ '' is moderately large ('' @
               show_int componentSize @ '' lines) and may have multiple responsibilities'',
             si_filePath = fn_path file,
             si_recommendation = ''Consider splitting this component into smaller, focused components''\<rparr>]
         else []) @
        (if hasMixedConcerns component then
           [\<lparr>si_id = ''srp-mixed-concerns-'' @ fn_path file @ ''-'' @ componentName,
             si_principle = SRP,
             si_severity = Warning,
             si_description = ''Component '' @ componentName @
               '' mixes multiple concerns (e.g., data fetching, state management, and UI rendering)'',
             si_filePath = fn_path file,
             si_recommendation = ''Separate concerns by moving data fetching to custom hooks, business logic to separate utilities, and keep components focused on UI rendering''\<rparr>]
         else []))"

primrec analyzeSRP :: "FileNode \<Rightarrow> node list \<Rightarrow> SolidIssue list" where
  "analyzeSRP file [] = []"
| "analyzeSRP file (component # components) =
     analyzeSRP_component file component @ analyzeSRP file components"

section \<open>Open-closed: conditionals and hard-coded values\<close>

definition isConditional :: "node \<Rightarrow> bool" where
  "isConditional n = (ntype n = ''IfStatement'' \<or> ntype n = ''SwitchStatement'' \<or>
                      ntype n = ''ConditionalExpression'')"

function hasExcessiveConditionals_traverse :: "node \<Rightarrow> nat \<Rightarrow> nat" where
  "hasExcessiveConditionals_traverse n conditionalCount =
    (let s = (if isConditional n then conditionalCount + 1 else conditionalCount);
         s = visit_body hasExcessiveConditionals_traverse n s;
         s = visit_one hasExcessiveConditionals_traverse n ''consequent'' s;
         s = visit_one hasExcessiveConditionals_traverse n ''alternate'' s;
         s = visit_all hasExcessiveConditionals_traverse n ''cases'' s;
         s = visit_one hasExcessiveConditionals_traverse n ''block'' s;
         s = visit_all hasExcessiveConditionals_traverse n ''declarations'' s;
         s = visit_one hasExcessiveConditionals_traverse n ''init'' s;
         s = visit_one hasExcessiveConditionals_traverse n ''test'' s;
         s = visit_one hasExcessiveConditionals_traverse n ''update'' s;
         s = visit_one hasExcessiveConditionals_traverse n ''expression'' s;
         s = visit_all hasExcessiveConditionals_traverse n ''arguments'' s
     in s)"
  by pat_completeness auto
termination
  by (relation "measure (\<lambda>(n, s). size n)") (auto simp: get_one_size get_arr_size)

declare hasExcessiveConditionals_traverse.simps [simp del]

definition EXCESSIVE_THRESHOLD :: nat where
  "EXCESSIVE_THRESHOLD = 5"

definition hasExcessiveConditionals :: "node \<Rightarrow> bool" where
  "hasExcessiveConditionals component =
     (hasExcessiveConditionals_traverse component 0 > EXCESSIVE_THRESHOLD)"

text \<open>The two loops over the \<^verbatim>\<open>parent\<close> chain: the node's own type is not looked
  at, only the types of the nodes above it.\<close>

function isInImportExport :: "node \<Rightarrow> bool" where
  "isInImportExport current =
     (case get_one current ''parent'' of
        None \<Rightarrow> False
      | Some parent \<Rightarrow>
          if ntype parent = ''ImportDeclaration'' \<or>
             ntype parent = ''ExportNamedDeclaration'' \<or>
             ntype parent = ''ExportDefaultDeclaration''
          then True else isInImportExport parent)"
  by pat_completeness auto
termination
  by (relation "measure size") (auto simp: get_one_size)

declare isInImportExport.simps [simp del]

function isInVariableDeclaration :: "node \<Rightarrow> bool" where
  "isInVariableDeclaration current =
     (case get_one current ''parent'' of
        None \<Rightarrow> False
      | Some parent \<Rightarrow>
          if ntype parent = ''VariableDeclaration'' then True
          else isInVariableDeclaration parent)"
  by pat_completeness auto
termination
  by (relation "measure size") (auto simp: get_one_size)

declare isInVariableDeclaration.simps [simp del]

definition isHardcoded :: "node \<Rightarrow> bool" where
  "isHardcoded n =
     ((ntype n = ''StringLiteral'' \<or> ntype n = ''NumericLiteral'' \<or>
       ntype n = ''ArrayExpression'' \<or> ntype n = ''ObjectExpression'') \<and>
      \<not> isInImportExport n \<and> \<not> isInVariableDeclaration n)"

function hasHardcodedValues_traverse :: "node \<Rightarrow> nat \<Rightarrow> nat" where
  "hasHardcodedValues_traverse n hardcodedValueCount =
    (let s = (if isHardcoded n then hardcodedValueCount + 1 else hardcodedValueCount);
         s = visit_body hasHardcodedValues_traverse n s;
         s = visit_one hasHardcodedValues_traverse n ''consequent'' s;
         s = visit_one hasHardcodedValues_traverse n ''alternate'' s;
         s = visit_one hasHardcodedValues_traverse n ''block'' s;
         s = visit_all hasHardcodedValues_traverse n ''declarations'' s;
         s = visit_one hasHardcodedValues_traverse n ''init'' s;
         s = visit_one hasHardcodedValues_traverse n ''expression'' s;
         s = visit_all hasHardcodedValues_traverse n ''arguments'' s;
         s = visit_all hasHardcodedValues_traverse n ''properties'' s;
         s = visit_all hasHardcodedValues_traverse n ''elements'' s
     in s)"
  by pat_completeness auto
termination
  by (relation "measure (\<lambda>(n, s). size n)") (auto simp: get_one_size get_arr_size)

declare hasHardcodedValues_traverse.simps [simp del]

definition THRESHOLD :: nat where
  "THRESHOLD = 3"

definition hasHardcodedValues :: "node \<Rightarrow> bool" where
  "hasHardcodedValues component = (hasHardcodedValues_traverse component 0 > THRESHOLD)"

definition analyzeOCP_component :: "FileNode \<Rightarrow> node \<Rightarrow> SolidIssue list" where
  "analyzeOCP_component file component =
    (let componentName = componentNameOf component
     in (if hasExcessiveConditionals component then
           [\<lparr>si_id = ''ocp-excessive-conditionals-'' @ fn_path file @ ''-'' @ componentName,
             si_principle = OCP,
             si_severity = Warning,
             si_description = ''Component '' @ componentName @
               '' contains excessive conditionals (switch statements or long if-else chains)'',
             si_filePath = fn_path file,
             si_recommendation = ''Replace conditionals with polymorphism or strategy pattern. Consider using a component map or render props pattern.''\<rparr>]
         else []) @
        (if hasHardcodedValues component then
           [\<lparr>si_id = ''ocp-hardcoded-values-'' @ fn_path file @ ''-'' @ componentName,
             si_principle = OCP,
             si_severity = Info,
             si_description = ''Component '' @ componentName @
               '' contains hardcoded values that should be configurable'',
             si_filePath = fn_path file,
             si_recommendation = ''Extract hardcoded values to props or configuration to make the component more extensible''\<rparr>]
         else []))"

primrec analyzeOCP :: "FileNode \<Rightarrow> node list \<Rightarrow> SolidIssue list" where
  "analyzeOCP file [] = []"
| "analyzeOCP file (component # components) =
     analyzeOCP_component file component @ analyzeOCP file components"

section \<open>Type declarations: Liskov substitution and interface segregation\<close>

text \<open>
  The type declarations that \<^verbatim>\<open>extractTypeDefinitions\<close> returns are interface, type
  alias and enum declarations. Of an interface the detectors read \<^verbatim>\<open>id.name\<close>, whether
  \<^verbatim>\<open>extends\<close> is present and how many entries it has, and the members
  \<^verbatim>\<open>body.body\<close>; of a member its \<^verbatim>\<open>type\<close>, its \<^verbatim>\<open>key.name\<close> when that is a
  string, and the length of \<^verbatim>\<open>parameters\<close> when present. Of the other declarations
  only \<^verbatim>\<open>type\<close> is read.
\<close>

datatype typeElement = TypeElement
  (te_type: string)
  (te_keyName: "string option")
  (te_parameters: "nat option")

datatype typeDefinition = TypeDefinition
  (td_type: string)
  (td_name: string)
  (td_extends: "nat option")
  (td_members: "typeElement list")

definition hasLSPViolation :: "typeDefinition \<Rightarrow> bool" where
  "hasLSPViolation typeDefinition =
     (case td_extends typeDefinition of
        None \<Rightarrow> False
      | Some n \<Rightarrow>
          if n = 0 then False
          else list_ex (\<lambda>member. te_type member = ''TSMethodSignature'' \<and>
                 (case te_parameters member of None \<Rightarrow> False | Some k \<Rightarrow> k > 2))
                 (td_members typeDefinition))"

definition analyzeLSP_typeDefinition :: "FileNode \<Rightarrow> typeDefinition \<Rightarrow> SolidIssue list" where
  "analyzeLSP_typeDefinition file typeDefinition =
    (if td_type typeDefinition = ''TSInterfaceDeclaration'' \<and> td_extends typeDefinition \<noteq> None
     then (if hasLSPViolation typeDefinition then
             [\<lparr>si_id = ''lsp-interface-violation-'' @ fn_path file @ ''-'' @ td_name typeDefinition,
               si_principle = LSP,
               si_severity = Warning,
               si_description = ''Interface '' @ td_name typeDefinition @
                 '' extends a base interface but may violate substitutability'',
               si_filePath = fn_path file,
               si_recommendation = ''Ensure derived interfaces maintain the contract of their base interfaces without strengthening preconditions or weakening postconditions''\<rparr>]
           else [])
     else [])"

primrec analyzeLSP :: "FileNode \<Rightarrow> typeDefinition list \<Rightarrow> SolidIssue list" where
  "analyzeLSP file [] = []"
| "analyzeLSP file (typeDefinition # typeDefinitions) =
     analyzeLSP_typeDefinition file typeDefinition @ analyzeLSP file typeDefinitions"

definition keyIncludes :: "typeElement \<Rightarrow> string list \<Rightarrow> bool" where
  "keyIncludes prop words =
     (case te_keyName prop of
        None \<Rightarrow> False
      | Some name \<Rightarrow> list_ex (\<lambda>w. str_includes name w) words)"

definition uiProps :: "typeElement list \<Rightarrow> typeElement list" where
  "uiProps properties =
     filter (\<lambda>prop. keyIncludes prop
       [''style'', ''class'', ''color'', ''size'', ''width'', ''height'']) properties"

definition dataProps :: "typeElement list \<Rightarrow> typeElement list" where
  "dataProps properties =
     filter (\<lambda>prop. keyIncludes prop [''data'', ''value'', ''item'', ''list'']) properties"

definition eventProps :: "typeElement list \<Rightarrow> typeElement list" where
  "eventProps properties =
     filter (\<lambda>prop. keyIncludes prop [''on'', ''handler'', ''callback'']) properties"

definition hasUnrelatedProps :: "typeDefinition \<Rightarrow> bool" where
  "hasUnrelatedProps typeDefinition =
    (let properties = td_members typeDefinition
     in if length properties \<le> 5 then False
        else (length (uiProps properties) \<ge> 2 \<and> length (dataProps properties) \<ge> 2) \<or>
             (length (uiProps properties) \<ge> 2 \<and> length (eventProps properties) \<ge> 2) \<or>
             (length (dataProps properties) \<ge> 2 \<and> length (eventProps properties) \<ge> 2))"

definition analyzeISP_typeDefinition :: "FileNode \<Rightarrow> typeDefinition \<Rightarrow> SolidIssue list" where
  "analyzeISP_typeDefinition file typeDefinition =
    (if td_type typeDefinition = ''TSInterfaceDeclaration'' then
       (let interfaceName = td_name typeDefinition;
            propertyCount = length (td_members typeDefinition)
        in (if propertyCount > 10 then
              [\<lparr>si_id = ''isp-large-interface-'' @ fn_path file @ ''-'' @ interfaceName,
                si_principle = ISP,
                si_severity = Warning,
                si_description = ''Interface '' @ interfaceName @ '' has '' @
                  show_nat propertyCount @
                  '' properties which may be too many for a single interface'',
                si_filePath = fn_path file,
                si_recommendation = ''Split large interfaces into smaller, more focused interfaces based on client needs''\<rparr>]
            else []) @
           (if hasUnrelatedProps typeDefinition then
              [\<lparr>si_id = ''isp-unrelated-props-'' @ fn_path file @ ''-'' @ interfaceName,
                si_principle = ISP,
                si_severity = Info,
                si_description = ''Interface '' @ interfaceName @
                  '' contains properties that seem unrelated and may not be used together'',
                si_filePath = fn_path file,
                si_recommendation = ''Group related properties into separate interfaces and compose them where needed''\<rparr>]
            else []))
     else [])"

primrec analyzeISP :: "FileNode \<Rightarrow> typeDefinition list \<Rightarrow> SolidIssue list" where
  "analyzeISP file [] = []"
| "analyzeISP file (typeDefinition # typeDefinitions) =
     analyzeISP_typeDefinition file typeDefinition @ analyzeISP file typeDefinitions"

section \<open>Dependency inversion: external services and coupling\<close>

definition dip_mark :: "node \<Rightarrow> bool \<Rightarrow> bool" where
  "dip_mark n hasDirectDependency =
    (let s = (if ntype n = ''CallExpression'' then
                (if path_str n [''callee''] ''name'' = Some ''fetch'' then True
                 else if path_str n [''callee'', ''object''] ''name'' = Some ''axios'' then True
                 else if isHttpVerb (path_str n [''callee'', ''property''] ''name'') then True
                 else hasDirectDependency)
              else hasDirectDependency);
         s = (if ntype n = ''MemberExpression'' \<and>
                 (path_str n [''object''] ''name'' = Some ''firebase'' \<or>
                  path_str n [''object''] ''name'' = Some ''db'' \<or>
                  path_str n [''object''] ''name'' = Some ''database'' \<or>
                  path_str n [''object''] ''name'' = Some ''mongoose'' \<or>
                  path_str n [''object''] ''name'' = Some ''prisma'')
              then True else s)
     in s)"

function hasDirectExternalDependencies_traverse :: "node \<Rightarrow> bool \<Rightarrow> bool" where
  "hasDirectExternalDependencies_traverse n hasDirectDependency =
    (let s = dip_mark n hasDirectDependency;
         s = visit_body hasDirectExternalDependencies_traverse n s;
         s = visit_one hasDirectExternalDependencies_traverse n ''consequent'' s;
         s = visit_one hasDirectExternalDependencies_traverse n ''alternate'' s;
         s = visit_one hasDirectExternalDependencies_traverse n ''block'' s;
         s = visit_all hasDirectExternalDependencies_traverse n ''declarations'' s;
         s = visit_one hasDirectExternalDependencies_traverse n ''init'' s;
         s = visit_one hasDirectExternalDependencies_traverse n ''expression'' s;
         s = visit_all hasDirectExternalDependencies_traverse n ''arguments'' s
     in s)"
  by pat_completeness auto
termination
  by (relation "measure (\<lambda>(n, s). size n)") (auto simp: get_one_size get_arr_size)

declare hasDirectExternalDependencies_traverse.simps [simp del]

definition hasDirectExternalDependencies :: "node \<Rightarrow> bool" where
  "hasDirectExternalDependencies component =
     hasDirectExternalDependencies_traverse component False"

text \<open>The test \<^verbatim>\<open>/^[A-Z]/\<close> on a name.\<close>

definition isCapitalized :: "string \<Rightarrow> bool" where
  "isCapitalized s =
     (case s of [] \<Rightarrow> False
      | c # _ \<Rightarrow> (65::nat) \<le> of_char c \<and> of_char c \<le> (90::nat))"

record coupling =
  importCount :: nat
  directReferenceCount :: nat

definition coupling_mark :: "node \<Rightarrow> coupling \<Rightarrow> coupling" where
  "coupling_mark n s =
    (let s = (if ntype n = ''JSXElement'' \<and>
                 (case path_str n [''openingElement'', ''name''] ''name'' of
                    None \<Rightarrow> False | Some name \<Rightarrow> isCapitalized name)
              then s\<lparr>directReferenceCount := directReferenceCount s + 1\<rparr> else s);
         s = (if ntype n = ''ImportDeclaration'' then
                s\<lparr>importCount := importCount s +
                    length (filter (\<lambda>specifier.
                      case path_str specifier [''local''] ''name'' of
                        None \<Rightarrow> False | Some name \<Rightarrow> isCapitalized name)
                      (case get_arr n ''specifiers'' of None \<Rightarrow> [] | Some xs \<Rightarrow> xs))\<rparr>
              else s)
     in s)"

function hasTightCoupling_traverse :: "node \<Rightarrow> coupling \<Rightarrow> coupling" where
  "hasTightCoupling_traverse n s =
    (let s = coupling_mark n s;
         s = visit_body hasTightCoupling_traverse n s;
         s = visit_one hasTightCoupling_traverse n ''consequent'' s;
         s = visit_one hasTightCoupling_traverse n ''alternate'' s;
         s = visit_one hasTightCoupling_traverse n ''block'' s;
         s = visit_all hasTightCoupling_traverse n ''declarations'' s;
         s = visit_one hasTightCoupling_traverse n ''init'' s;
         s = visit_one hasTightCoupling_traverse n ''expression'' s;
         s = visit_all hasTightCoupling_traverse n ''children'' s
     in s)"
  by pat_completeness auto
termination
  by (relation "measure (\<lambda>(n, s). size n)") (auto simp: get_one_size get_arr_size)

declare hasTightCoupling_traverse.simps [simp del]

definition hasTightCoupling :: "node \<Rightarrow> bool" where
  "hasTightCoupling component =
    (let s = hasTightCoupling_traverse component \<lparr>importCount = 0, directReferenceCount = 0\<rparr>
     in importCount s > 5 \<or> directReferenceCount s > 7)"

definition analyzeDIP_component :: "FileNode \<Rightarrow> node \<Rightarrow> SolidIssue list" where
  "analyzeDIP_component file component =
    (let componentName = componentNameOf component
     in (if hasDirectExternalDependencies component then
           [\<lparr>si_id = ''dip-direct-dependencies-'' @ fn_path file @ ''-'' @ componentName,
             si_principle = DIP,
             si_severity = Warning,
             si_description = ''Component '' @ componentName @
               '' directly depends on external services or APIs'',
             si_filePath = fn_path file,
             si_recommendation = ''Use dependency injection and abstractions (interfaces) instead of concrete implementations. Consider using custom hooks or context for external dependencies.''\<rparr>]
         else []) @
        (if hasTightCoupling component then
           [\<lparr>si_id = ''dip-tight-coupling-'' @ fn_path file @ ''-'' @ componentName,
             si_principle = DIP,
             si_severity = Warning,
             si_description = ''Component '' @ componentName @
               '' is tightly coupled to other components or services'',
             si_filePath = fn_path file,
             si_recommendation = ''Reduce coupling by depending on interfaces rather than concrete implementations. Use composition over inheritance.''\<rparr>]
         else []))"

primrec analyzeDIP :: "FileNode \<Rightarrow> node list \<Rightarrow> SolidIssue list" where
  "analyzeDIP file [] = []"
| "analyzeDIP file (component # components) =
     analyzeDIP_component file component @ analyzeDIP file components"

section \<open>Scores\<close>

text \<open>
  JavaScript numbers are doubles. \<open>roundToDouble\<close> rounds a real number to the nearest
  number with 53 significant bits, a tie to the one whose last bit is 0. The range of the
  exponent is left out: with a logarithm below 2^10 every value of the score computation is
  0 or lies between 2^-50 and 2^60, so nothing overflows or becomes subnormal. Addition,
  subtraction, multiplication and division round their exact result; \<^verbatim>\<open>Math.max\<close> and
  \<^verbatim>\<open>Math.round\<close> are exact, and \<^verbatim>\<open>Math.round\<close> rounds a half upwards, as
  \<^const>\<open>round\<close> does. \<^verbatim>\<open>Math.log10\<close> is implementation-approximated and is a
  parameter, its value at a positive number of files; \<^verbatim>\<open>Math.log10(0)\<close> is
  \<^verbatim>\<open>-Infinity\<close> and \<^verbatim>\<open>Math.max(1, -Infinity)\<close> is 1.
\<close>

definition binade :: "real \<Rightarrow> int" where
  "binade x = \<lfloor>log 2 \<bar>x\<bar>\<rfloor>"

definition roundEven :: "real \<Rightarrow> int" where
  "roundEven y =
     (let f = \<lfloor>y\<rfloor>; r = y - of_int f
      in if r < 1 / 2 then f else if 1 / 2 < r then f + 1 else if even f then f else f + 1)"

definition roundToDouble :: "real \<Rightarrow> real" where
  "roundToDouble x =
     (if x = 0 then 0
      else of_int (roundEven (x / 2 powi (binade x - 52))) * 2 powi (binade x - 52))"

definition dadd :: "real \<Rightarrow> real \<Rightarrow> real" where
  "dadd a b = roundToDouble (a + b)"

definition dsub :: "real \<Rightarrow> real \<Rightarrow> real" where
  "dsub a b = roundToDouble (a - b)"

definition dmul :: "real \<Rightarrow> real \<Rightarrow> real" where
  "dmul a b = roundToDouble (a * b)"

definition ddiv :: "real \<Rightarrow> real \<Rightarrow> real" where
  "ddiv a b = roundToDouble (a / b)"

record SolidScore =
  srp :: real
  ocp :: real
  lsp :: real
  isp :: real
  dip :: real
  overall :: real

definition countIssue ::
  "SolidIssue \<Rightarrow> (principle \<Rightarrow> severity \<Rightarrow> real) \<Rightarrow> (principle \<Rightarrow> severity \<Rightarrow> real)" where
  "countIssue issue counts =
     counts (si_principle issue :=
       (counts (si_principle issue))
         (si_severity issue := dadd (counts (si_principle issue) (si_severity issue)) 1))"

definition normalizationFactor :: "(nat \<Rightarrow> real) \<Rightarrow> nat \<Rightarrow> real" where
  "normalizationFactor log10 totalFiles =
     (if totalFiles = 0 then 1 else max 1 (log10 totalFiles))"

definition calculatePenalty ::
  "(nat \<Rightarrow> real) \<Rightarrow> (severity \<Rightarrow> real) \<Rightarrow> nat \<Rightarrow> (severity \<Rightarrow> real) \<Rightarrow> real" where
  "calculatePenalty log10 counts totalFiles penalties =
     ddiv (dadd (dadd (dmul (counts Info) (penalties Info))
                      (dmul (counts Warning) (penalties Warning)))
                (dmul (counts Critical) (penalties Critical)))
          (normalizationFactor log10 totalFiles)"

definition penalties :: "severity \<Rightarrow> real" where
  "penalties s = (case s of Info \<Rightarrow> 1 | Warning \<Rightarrow> 3 | Critical \<Rightarrow> 10)"

definition baseScore :: real where
  "baseScore = 100"

definition calculateScores :: "(nat \<Rightarrow> real) \<Rightarrow> SolidIssue list \<Rightarrow> nat \<Rightarrow> SolidScore" where
  "calculateScores log10 issues totalFiles =
    (let counts = fold countIssue issues (\<lambda>p s. 0);
         srp = max 0 (dsub baseScore (calculatePenalty log10 (counts SRP) totalFiles penalties));
         ocp = max 0 (dsub baseScore (calculatePenalty log10 (counts OCP) totalFiles penalties));
         lsp = max 0 (dsub baseScore (calculatePenalty log10 (counts LSP) totalFiles penalties));
         isp = max 0 (dsub baseScore (calculatePenalty log10 (counts ISP) totalFiles penalties));
         dip = max 0 (dsub baseScore (calculatePenalty log10 (counts DIP) totalFiles penalties));
         overall = of_int (round (ddiv (dadd (dadd (dadd (dadd srp ocp) lsp) isp) dip) 5))
     in \<lparr>srp = srp, ocp = ocp, lsp = lsp, isp = isp, dip = dip, overall = overall\<rparr>)"

section \<open>What the parser and the path library hand to the analyzers\<close>

text \<open>
  \<^verbatim>\<open>parseFileFromPath\<close> reads a file and parses it with the external parser; the
  extraction utilities walk the tree with the parser's \<^verbatim>\<open>simpleTraverse\<close>. Both are
  outside the analysed code, so an analysis takes as a parameter the function that gives,
  for a file path, either nothing (the read or the parse threw) or what the extraction
  utilities return for the file: its components, its type declarations, its import
  declarations (source specifier, and type and local name of each specifier) and its export
  declarations (type, and the exported name of each specifier that has one).
\<close>

datatype importSpecifier = ImportSpecifier (is_type: string) (is_localName: string)

datatype importDecl = ImportDecl (imp_source: string) (imp_specifiers: "importSpecifier list")

datatype exportDecl = ExportDecl (exp_type: string) (exp_specifiers: "string option list")

record parsedFile =
  pf_components :: "node list"
  pf_typeDefinitions :: "typeDefinition list"
  pf_imports :: "importDecl list"
  pf_exports :: "exportDecl list"

type_synonym parser = "string \<Rightarrow> parsedFile option"

text \<open>The functions of Node's \<^verbatim>\<open>path\<close> module that the analyzers call, as
  parameters: \<^verbatim>\<open>dirname\<close>, \<^verbatim>\<open>resolve\<close>, \<^verbatim>\<open>extname\<close>, \<^verbatim>\<open>join\<close>,
  \<^verbatim>\<open>basename\<close> with one and with two arguments.\<close>

record pathModule =
  path_dirname :: "string \<Rightarrow> string"
  path_resolve :: "string \<Rightarrow> string \<Rightarrow> string"
  path_extname :: "string \<Rightarrow> string"
  path_join :: "string \<Rightarrow> string \<Rightarrow> string"
  path_basename :: "string \<Rightarrow> string"
  path_basename_ext :: "string \<Rightarrow> string \<Rightarrow> string"

text \<open>A JavaScript \<^verbatim>\<open>Map\<close> and a \<^verbatim>\<open>Set\<close> keep insertion order: a map is the list
  of its entries, a set the list of its members.\<close>

definition map_set :: "('k \<times> 'v) list \<Rightarrow> 'k \<Rightarrow> 'v \<Rightarrow> ('k \<times> 'v) list" where
  "map_set m k v =
     (if k \<in> set (map fst m) then map (\<lambda>(k', v'). if k' = k then (k', v) else (k', v')) m
      else m @ [(k, v)])"

definition set_add :: "'a list \<Rightarrow> 'a \<Rightarrow> 'a list" where
  "set_add xs x = (if x \<in> set xs then xs else xs @ [x])"

definition isScriptFile :: "FileNode \<Rightarrow> bool" where
  "isScriptFile file =
     (fn_extension file = Some ''.ts'' \<or> fn_extension file = Some ''.tsx'' \<or>
      fn_extension file = Some ''.js'' \<or> fn_extension file = Some ''.jsx'')"

section \<open>Module dependencies\<close>

datatype dependencyType = DepComponent | DepPage | DepApi | DepUtil | DepHook | DepLib | DepConfig

record DependencyNode =
  dn_id :: string
  dn_label :: string
  dn_filePath :: string
  dn_type :: dependencyType
  dn_imports :: "string list"
  dn_exports :: "string list"

datatype cycleSeverity = CycleWarning | CycleCritical

record CircularDependency =
  cd_path :: "string list"
  cd_severity :: cycleSeverity

record DependencyGraph =
  dg_dependencies :: "DependencyNode list"
  dg_circularDependencies :: "CircularDependency list"

definition extensions :: "string list" where
  "extensions = [''.ts'', ''.tsx'', ''.js'', ''.jsx'']"

text \<open>A \<^verbatim>\<open>for\<close> loop whose body returns in its first iteration.\<close>

definition firstIteration :: "'a list \<Rightarrow> ('a \<Rightarrow> 'b) \<Rightarrow> 'b option" where
  "firstIteration xs body = (case xs of [] \<Rightarrow> None | x # _ \<Rightarrow> Some (body x))"

definition resolveImportPath :: "pathModule \<Rightarrow> string \<Rightarrow> string \<Rightarrow> string option" where
  "resolveImportPath P sourcePath importPath =
    (let sourceDir = path_dirname P sourcePath;
         resolvedPath = path_resolve P sourceDir importPath
     in if path_extname P resolvedPath = [] then
          (case firstIteration extensions (\<lambda>ext. resolvedPath @ ext) of
             Some pathWithExt \<Rightarrow> Some pathWithExt
           | None \<Rightarrow>
          (case firstIteration extensions
                  (\<lambda>ext. path_join P resolvedPath (''index'' @ ext)) of
             Some indexPath \<Rightarrow> Some indexPath
           | None \<Rightarrow> Some resolvedPath))
        else Some resolvedPath)"

definition isLocalImport :: "string \<Rightarrow> bool" where
  "isLocalImport importPath = (startsWith importPath ''.'' \<or> startsWith importPath ''/'')"

definition addImportPath :: "pathModule \<Rightarrow> FileNode \<Rightarrow> importDecl \<Rightarrow> string list \<Rightarrow> string list" where
  "addImportPath P file importDecl importPaths =
    (let importPath = imp_source importDecl
     in if \<not> startsWith importPath ''.'' \<and> \<not> startsWith importPath ''/'' then importPaths
        else (case resolveImportPath P (fn_path file) importPath of
                None \<Rightarrow> importPaths
              | Some resolvedPath \<Rightarrow>
                  if resolvedPath = [] then importPaths
                  else set_add importPaths resolvedPath))"

definition collectImportPaths :: "pathModule \<Rightarrow> FileNode \<Rightarrow> importDecl list \<Rightarrow> string list" where
  "collectImportPaths P file imports = fold (addImportPath P file) imports []"

definition addExportNames :: "exportDecl \<Rightarrow> string list \<Rightarrow> string list" where
  "addExportNames exportDecl exportNames =
    (if exp_type exportDecl = ''ExportNamedDeclaration'' then
       exportNames @ List.map_filter (\<lambda>exported. exported) (exp_specifiers exportDecl)
     else if exp_type exportDecl = ''ExportDefaultDeclaration'' then exportNames @ [''default'']
     else exportNames)"

definition dependencyTypeOf :: "pathModule \<Rightarrow> FileNode \<Rightarrow> dependencyType" where
  "dependencyTypeOf P file =
    (if fn_isPage file then DepPage
     else if fn_isComponent file then DepComponent
     else if str_includes (fn_path file) ''/api/'' then DepApi
     else if str_includes (fn_path file) ''/hooks/'' \<or>
             startsWith (path_basename_ext P (fn_path file) (path_extname P (fn_path file))) ''use''
          then DepHook
     else if str_includes (fn_path file) ''/lib/'' then DepLib
     else if str_includes (fn_path file) ''/config/'' then DepConfig
     else DepUtil)"

record dependencyPass =
  dependencyNodes :: "DependencyNode list"
  filePathToModuleName :: "(string \<times> string) list"
  dependencyMap :: "(string \<times> string list) list"

definition dependencyFile :: "pathModule \<Rightarrow> parser \<Rightarrow> FileNode \<Rightarrow> dependencyPass \<Rightarrow> dependencyPass" where
  "dependencyFile P parse file s =
    (case parse (fn_path file) of
       None \<Rightarrow> s
     | Some ast \<Rightarrow>
        (let importPaths = collectImportPaths P file (pf_imports ast);
             exportNames = fold addExportNames (pf_exports ast) [];
             type = dependencyTypeOf P file;
             fileName = path_basename P (fn_path file);
             dependencyNode = \<lparr>dn_id = fn_path file, dn_label = fileName,
               dn_filePath = fn_path file, dn_type = type,
               dn_imports = importPaths, dn_exports = exportNames\<rparr>
         in \<lparr>dependencyNodes = dependencyNodes s @ [dependencyNode],
              filePathToModuleName = map_set (filePathToModuleName s) (fn_path file) fileName,
              dependencyMap = map_set (dependencyMap s) (fn_path file) importPaths\<rparr>))"

text \<open>The cycle detector. \<^verbatim>\<open>dfs\<close> is the inner function of
  \<^verbatim>\<open>detectCircularDependencies\<close>; \<open>dfs_each\<close> is its loop over the dependencies of a
  node, every call being handed its own copy of the path.\<close>

record dfsState =
  visited :: "string set"
  stack :: "string set"
  found :: "CircularDependency list"

primrec findIndex :: "string list \<Rightarrow> string \<Rightarrow> int" where
  "findIndex [] node = - 1"
| "findIndex (p # ps) node =
     (if p = node then 0
      else (let i = findIndex ps node in if i < 0 then - 1 else i + 1))"

text \<open>\<^verbatim>\<open>filePathToModuleName.get(p) || p\<close>: an empty name is falsy.\<close>

definition moduleName :: "(string \<times> string) list \<Rightarrow> string \<Rightarrow> string" where
  "moduleName names p =
     (case map_of names p of None \<Rightarrow> p | Some label \<Rightarrow> if label = [] then p else label)"

text \<open>\<^verbatim>\<open>dependencyMap.get(node) || new Set()\<close>\<close>

definition dependenciesOf :: "(string \<times> string list) list \<Rightarrow> string \<Rightarrow> string list" where
  "dependenciesOf m node = (case map_of m node of None \<Rightarrow> [] | Some ds \<Rightarrow> ds)"

definition recordCycle :: "(string \<times> string) list \<Rightarrow> string \<Rightarrow> string list \<Rightarrow> dfsState \<Rightarrow> dfsState" where
  "recordCycle names node path st =
    (let cycleStart = findIndex path node
     in if cycleStart \<ge> 0 then
          (let cycle = map (moduleName names) (drop (nat cycleStart) path);
               severity = (if length cycle > 3 then CycleCritical else CycleWarning)
           in st\<lparr>found := found st @ [\<lparr>cd_path = cycle, cd_severity = severity\<rparr>]\<rparr>)
        else st)"

function dfs ::
    "(string \<times> string list) list \<Rightarrow> (string \<times> string) list \<Rightarrow> string \<Rightarrow> string list \<Rightarrow>
     dfsState \<Rightarrow> dfsState"
  and dfs_each ::
    "(string \<times> string list) list \<Rightarrow> (string \<times> string) list \<Rightarrow> string list \<Rightarrow> string list \<Rightarrow>
     dfsState \<Rightarrow> dfsState"
where
  "dfs m names node path st =
    (if node \<in> visited st then st
     else if node \<in> stack st then recordCycle names node path st
     else
       (let st = st\<lparr>stack := insert node (stack st)\<rparr>;
            path = path @ [node];
            st = dfs_each m names (dependenciesOf m node) path st
        in st\<lparr>stack := stack st - {node}, visited := insert node (visited st)\<rparr>))"
| "dfs_each m names [] path st = st"
| "dfs_each m names (dependency # dependencies) path st =
     dfs_each m names dependencies path (dfs m names dependency path st)"
  by pat_completeness auto

definition explored :: "dfsState \<Rightarrow> string set" where
  "explored st = visited st \<union> stack st"

definition graphNodes :: "(string \<times> string list) list \<Rightarrow> string set" where
  "graphNodes m = set (map fst m) \<union> (\<Union>ds \<in> set (map snd m). set ds)"

lemma finite_graphNodes: "finite (graphNodes m)"
  by (simp add: graphNodes_def)

lemma dependenciesOf_nodes:
  assumes "d \<in> set (dependenciesOf m node)"
  shows "d \<in> graphNodes m \<and> node \<in> graphNodes m"
proof (cases "map_of m node")
  case None
  with assms show ?thesis by (simp add: dependenciesOf_def)
next
  case (Some ds)
  with assms have d: "d \<in> set ds" by (simp add: dependenciesOf_def)
  from Some have "(node, ds) \<in> set m" by (rule map_of_SomeD)
  then have "node \<in> fst ` set m" "ds \<in> snd ` set m" by force+
  with d show ?thesis by (auto simp: graphNodes_def)
qed

lemma explored_recordCycle: "explored (recordCycle names node path st) = explored st"
  by (simp add: recordCycle_def explored_def Let_def)

lemma dfs_explored_mono:
  "dfs_dfs_each_dom (Inl (m, names, node, path, st)) \<Longrightarrow>
     explored st \<subseteq> explored (dfs m names node path st)"
  "dfs_dfs_each_dom (Inr (m, names, ds, path, st)) \<Longrightarrow>
     explored st \<subseteq> explored (dfs_each m names ds path st)"
proof (induction m names node path st and m names ds path st rule: dfs_dfs_each.pinduct)
  case (1 m names node path st)
  show ?case
  proof (cases "node \<in> visited st \<or> node \<in> stack st")
    case True
    then show ?thesis using 1(1) by (auto simp: dfs.psimps explored_recordCycle)
  next
    case False
    then have "explored (st\<lparr>stack := insert node (stack st)\<rparr>) \<subseteq>
       explored (dfs_each m names (dependenciesOf m node) (path @ [node])
                  (st\<lparr>stack := insert node (stack st)\<rparr>))"
      using 1(2) by simp
    then show ?thesis using False 1(1)
      by (auto simp: dfs.psimps Let_def explored_def)
  qed
next
  case (2 m names path st)
  then show ?case by (simp add: dfs_each.psimps)
next
  case (3 m names d ds path st)
  then show ?case by (auto simp: dfs_each.psimps)
qed

termination dfs
proof (relation "inv_image (less_than <*lex*> less_than)
    (\<lambda>x. case x of
       Inl (m, names, node, path, st) \<Rightarrow> (card (graphNodes m - explored st), 1)
     | Inr (m, names, ds, path, st) \<Rightarrow> (card (graphNodes m - explored st), 2 * length ds))",
    goal_cases)
  case 1
  then show ?case by (intro wf_inv_image wf_lex_prod wf_less_than)
next
  case (2 m names node path st x xa)
  show ?case
  proof (cases "dependenciesOf m node = []")
    case True
    have "graphNodes m - explored x \<subseteq> graphNodes m - explored st"
      using 2 by (auto simp: explored_def)
    then have "card (graphNodes m - explored x) \<le> card (graphNodes m - explored st)"
      by (intro card_mono) (auto simp: finite_graphNodes)
    then show ?thesis using True by auto
  next
    case False
    then obtain d where "d \<in> set (dependenciesOf m node)"
      by (cases "dependenciesOf m node") auto
    then have "node \<in> graphNodes m" using dependenciesOf_nodes by blast
    then have "graphNodes m - explored x \<subset> graphNodes m - explored st"
      using 2 by (auto simp: explored_def)
    then have "card (graphNodes m - explored x) < card (graphNodes m - explored st)"
      by (intro psubset_card_mono) (auto simp: finite_graphNodes)
    then show ?thesis using 2 by simp
  qed
next
  case (3 m names dependency dependencies path st)
  then show ?case by simp
next
  case (4 m names dependency dependencies path st)
  have "graphNodes m - explored (dfs m names dependency path st) \<subseteq> graphNodes m - explored st"
    using dfs_explored_mono(1)[OF 4] by auto
  then have "card (graphNodes m - explored (dfs m names dependency path st))
      \<le> card (graphNodes m - explored st)"
    by (intro card_mono) (auto simp: finite_graphNodes)
  then show ?case by auto
qed

declare dfs.simps [simp del]

definition detectCircularDependencies ::
    "(string \<times> string list) list \<Rightarrow> (string \<times> string) list \<Rightarrow> CircularDependency list" where
  "detectCircularDependencies depMap names =
     found (fold (\<lambda>node st. dfs depMap names node [] st)
              (map fst depMap) \<lparr>visited = {}, stack = {}, found = []\<rparr>)"

definition analyzeDependencies :: "pathModule \<Rightarrow> parser \<Rightarrow> FileNode list \<Rightarrow> DependencyGraph" where
  "analyzeDependencies P parse fileData =
    (let tsFiles = filter isScriptFile fileData;
         s = fold (dependencyFile P parse) tsFiles
               \<lparr>dependencyNodes = [], filePathToModuleName = [], dependencyMap = []\<rparr>;
         circularDependencies =
           detectCircularDependencies (dependencyMap s) (filePathToModuleName s)
     in \<lparr>dg_dependencies = dependencyNodes s,
          dg_circularDependencies = circularDependencies\<rparr>)"

section \<open>Component graph\<close>

datatype componentType = TComponent | TPage | TLayout | TUtils | THook

record ComponentNodeData =
  cn_id :: string
  cn_label :: string
  cn_filePath :: string
  cn_type :: componentType
  cn_props :: "string list option"
  cn_imports :: nat
  cn_exports :: nat
  cn_position :: "(nat \<times> nat) option"

record ComponentRelationship =
  cr_id :: string
  cr_source :: string
  cr_target :: string

record ComponentGraph =
  cg_components :: "ComponentNodeData list"
  cg_relationships :: "ComponentRelationship list"

text \<open>\<^verbatim>\<open>extractComponentProps\<close>: the names destructured by the first parameter.\<close>

definition objectPatternProps :: "node \<Rightarrow> string list" where
  "objectPatternProps fn =
    (case get_arr fn ''params'' of
       Some (firstParam # _) \<Rightarrow>
         if ntype firstParam = ''ObjectPattern'' then
           List.map_filter
             (\<lambda>p. if ntype p = ''Property'' then
                     (case get_one p ''key'' of
                        None \<Rightarrow> None
                      | Some key \<Rightarrow> if ntype key = ''Identifier'' then get_str key ''name'' else None)
                   else None)
             (case get_arr firstParam ''properties'' of None \<Rightarrow> [] | Some ps \<Rightarrow> ps)
         else []
     | _ \<Rightarrow> [])"

definition extractComponentProps :: "node \<Rightarrow> string list" where
  "extractComponentProps component =
    (if ntype component = ''FunctionDeclaration'' then objectPatternProps component
     else if ntype component = ''VariableDeclarator'' then
       (case get_one component ''init'' of
          None \<Rightarrow> []
        | Some init \<Rightarrow>
            if ntype init = ''ArrowFunctionExpression'' \<or> ntype init = ''FunctionExpression''
            then objectPatternProps init else [])
     else [])"

definition declaredName :: "node \<Rightarrow> string" where
  "declaredName component =
    (if ntype component = ''FunctionDeclaration'' \<or> ntype component = ''ClassDeclaration'' then
       (case path_str component [''id''] ''name'' of None \<Rightarrow> [] | Some name \<Rightarrow> name)
     else if ntype component = ''VariableDeclarator'' \<and>
             (case get_one component ''id'' of None \<Rightarrow> False
              | Some i \<Rightarrow> ntype i = ''Identifier'') then
       (case path_str component [''id''] ''name'' of None \<Rightarrow> [] | Some name \<Rightarrow> name)
     else [])"

definition componentTypeOf :: "FileNode \<Rightarrow> string \<Rightarrow> componentType" where
  "componentTypeOf file componentName =
    (if fn_isPage file then TPage
     else if fn_isLayout file then TLayout
     else if str_includes (fn_path file) ''/hooks/'' \<or> startsWith componentName ''use'' then THook
     else if str_includes (fn_path file) ''/utils/'' \<or> str_includes (fn_path file) ''/lib/'' \<or>
             str_includes (fn_path file) ''/helpers/'' then TUtils
     else TComponent)"

definition componentNodeOf :: "FileNode \<Rightarrow> node \<Rightarrow> ComponentNodeData option" where
  "componentNodeOf file component =
    (let componentName = declaredName component
     in if componentName = [] then None
        else
          (let props = extractComponentProps component
           in Some \<lparr>cn_id = fn_path file @ '':'' @ componentName,
                    cn_label = componentName,
                    cn_filePath = fn_path file,
                    cn_type = componentTypeOf file componentName,
                    cn_props = (if length props > 0 then Some props else None),
                    cn_imports = 0,
                    cn_exports = 0,
                    cn_position = None\<rparr>))"

definition importedComponentsOf :: "importDecl list \<Rightarrow> string list" where
  "importedComponentsOf imports =
     concat (map (\<lambda>importDecl.
       if \<not> startsWith (imp_source importDecl) ''.'' then []
       else List.map_filter
              (\<lambda>specifier.
                 if (is_type specifier = ''ImportSpecifier'' \<or>
                     is_type specifier = ''ImportDefaultSpecifier'') \<and>
                    isCapitalized (is_localName specifier)
                 then Some (is_localName specifier) else None)
              (imp_specifiers importDecl)) imports)"

record componentPass =
  componentNodes :: "ComponentNodeData list"
  importMap :: "(string \<times> string list) list"

definition componentFile :: "parser \<Rightarrow> FileNode \<Rightarrow> componentPass \<Rightarrow> componentPass" where
  "componentFile parse file s =
    (case parse (fn_path file) of
       None \<Rightarrow> s
     | Some ast \<Rightarrow>
        (let nodes = componentNodes s @
                       List.map_filter (componentNodeOf file) (pf_components ast);
             importedComponents = importedComponentsOf (pf_imports ast)
         in \<lparr>componentNodes = nodes,
              importMap = (if length importedComponents > 0
                           then map_set (importMap s) (fn_path file) importedComponents
                           else importMap s)\<rparr>))"

text \<open>
  The second pass. \<^verbatim>\<open>filter\<close> returns the node objects themselves, and the counts are
  updated on those objects, so the loops run over positions in \<^verbatim>\<open>componentNodes\<close>.
\<close>

record relationPass =
  rp_nodes :: "ComponentNodeData list"
  relationships :: "ComponentRelationship list"

definition relate :: "nat \<Rightarrow> nat \<Rightarrow> relationPass \<Rightarrow> relationPass" where
  "relate i j s =
    (let sourceComponent = rp_nodes s ! i;
         targetComponent = rp_nodes s ! j
     in if cn_id sourceComponent = cn_id targetComponent then s
        else
          (let relationship = \<lparr>cr_id = cn_id sourceComponent @ ''->'' @ cn_id targetComponent,
                                cr_source = cn_id sourceComponent,
                                cr_target = cn_id targetComponent\<rparr>;
               nodes = (rp_nodes s)[i := sourceComponent\<lparr>cn_imports := cn_imports sourceComponent + 1\<rparr>];
               nodes = nodes[j := (nodes ! j)\<lparr>cn_exports := cn_exports (nodes ! j) + 1\<rparr>]
           in \<lparr>rp_nodes = nodes, relationships = relationships s @ [relationship]\<rparr>))"

definition positionsWhere :: "('a \<Rightarrow> bool) \<Rightarrow> 'a list \<Rightarrow> nat list" where
  "positionsWhere P xs = filter (\<lambda>i. P (xs ! i)) [0..<length xs]"

definition relateImport :: "nat list \<Rightarrow> string \<Rightarrow> relationPass \<Rightarrow> relationPass" where
  "relateImport sourceComponents importedName s =
    (let targetComponents = positionsWhere (\<lambda>n. cn_label n = importedName) (rp_nodes s)
     in fold (\<lambda>i. fold (\<lambda>j. relate i j) targetComponents) sourceComponents s)"

definition relateFile :: "string \<times> string list \<Rightarrow> relationPass \<Rightarrow> relationPass" where
  "relateFile entry s =
    (let filePath = fst entry;
         importedComponents = snd entry;
         sourceComponents = positionsWhere (\<lambda>n. cn_filePath n = filePath) (rp_nodes s)
     in if length sourceComponents = 0 then s
        else fold (relateImport sourceComponents) importedComponents s)"

text \<open>\<^verbatim>\<open>Math.ceil(Math.sqrt(n))\<close>: the least \<open>k\<close> whose square is at least \<open>n\<close>.\<close>

definition gridSizeOf :: "nat \<Rightarrow> nat" where
  "gridSizeOf n = length (takeWhile (\<lambda>k. k * k < n) [0..<Suc n])"

definition spacing :: nat where
  "spacing = 150"

definition placeNodes :: "ComponentNodeData list \<Rightarrow> ComponentNodeData list" where
  "placeNodes nodes =
    (let gridSize = gridSizeOf (length nodes)
     in map (\<lambda>(index, n).
              n\<lparr>cn_position := Some ((index mod gridSize) * spacing, (index div gridSize) * spacing)\<rparr>)
            (zip [0..<length nodes] nodes))"

definition analyzeComponents :: "parser \<Rightarrow> FileNode list \<Rightarrow> ComponentGraph" where
  "analyzeComponents parse fileData =
    (let tsxFiles = filter (\<lambda>file.
           fn_extension file = Some ''.tsx'' \<or> fn_extension file = Some ''.jsx'' \<or>
           fn_extension file = Some ''.js'' \<or> fn_extension file = Some ''.ts'') fileData;
         first = fold (componentFile parse) tsxFiles \<lparr>componentNodes = [], importMap = []\<rparr>;
         second = fold relateFile (importMap first)
                    \<lparr>rp_nodes = componentNodes first, relationships = []\<rparr>
     in \<lparr>cg_components = placeNodes (rp_nodes second),
          cg_relationships = relationships second\<rparr>)"

section \<open>The principle report\<close>

record SolidStats =
  ss_filesAnalyzed :: nat
  ss_totalComponents :: nat
  ss_totalIssues :: nat
  ss_criticalIssues :: nat

record SolidReport =
  sr_score :: SolidScore
  sr_issues :: "SolidIssue list"
  sr_stats :: SolidStats

record solidPass =
  sp_issues :: "SolidIssue list"
  sp_totalComponents :: nat

definition solidFile :: "parser \<Rightarrow> FileNode \<Rightarrow> solidPass \<Rightarrow> solidPass" where
  "solidFile parse file s =
    (case parse (fn_path file) of
       None \<Rightarrow> s
     | Some ast \<Rightarrow>
        (let components = pf_components ast;
             typeDefinitions = pf_typeDefinitions ast
         in \<lparr>sp_issues = sp_issues s @ analyzeSRP file components @ analyzeOCP file components @
                analyzeLSP file typeDefinitions @ analyzeISP file typeDefinitions @
                analyzeDIP file components,
              sp_totalComponents = sp_totalComponents s + length components\<rparr>))"

definition analyzeSolid :: "(nat \<Rightarrow> real) \<Rightarrow> parser \<Rightarrow> FileNode list \<Rightarrow> SolidReport" where
  "analyzeSolid log10 parse fileData =
    (let tsFiles = filter isScriptFile fileData;
         s = fold (solidFile parse) tsFiles \<lparr>sp_issues = [], sp_totalComponents = 0\<rparr>;
         scores = calculateScores log10 (sp_issues s) (length tsFiles);
         criticalIssues = length (filter (\<lambda>issue. si_severity issue = Critical) (sp_issues s))
     in \<lparr>sr_score = scores,
          sr_issues = sp_issues s,
          sr_stats = \<lparr>ss_filesAnalyzed = length tsFiles,
                       ss_totalComponents = sp_totalComponents s,
                       ss_totalIssues = length (sp_issues s),
                       ss_criticalIssues = criticalIssues\<rparr>\<rparr>)"

section \<open>Source scanner\<close>

text \<open>
  What \<^verbatim>\<open>fs.promises.readdir\<close> and \<^verbatim>\<open>fs.promises.stat\<close> show of the scanned
  directory: a file with its size (or none, when \<^verbatim>\<open>stat\<close> throws), a directory with
  its entries (or none, when \<^verbatim>\<open>readdir\<close> throws), or an entry that is neither. The
  comparison \<^verbatim>\<open>String.prototype.localeCompare\<close> is a parameter of the scan.
\<close>

datatype fsEntry =
    FsFile string "nat option"
  | FsDirectory string "fsEntry list option"
  | FsOther string

datatype scanError = ReaddirError string | StatError string

record dirMetadata =
  dm_fileCount :: "nat option"
  dm_isPages :: bool
  dm_isApp :: bool
  dm_isComponents :: bool

datatype treeNode =
    FileEntry FileNode
  | DirectoryEntry (dir_name: string) (dir_path: string) (dir_children: "treeNode list")
      (dir_metadata: "dirMetadata option")

definition INCLUDE_EXTENSIONS :: "string list" where
  "INCLUDE_EXTENSIONS = [''.ts'', ''.tsx'', ''.js'', ''.jsx'', ''.json'', ''.md'']"

definition EXCLUDE_DIRS :: "string list" where
  "EXCLUDE_DIRS = [''node_modules'', ''.git'', ''dist'', ''build'', ''.next'', ''out'']"

definition isNextPage :: "pathModule \<Rightarrow> string \<Rightarrow> bool" where
  "isNextPage P filePath =
    (let ext = path_extname P filePath
     in if ext \<notin> set [''.tsx'', ''.jsx'', ''.js'', ''.ts''] then False
        else
          (let normalizedPath = map (\<lambda>c. if c = CHR 0x5C then CHR ''/'' else c) filePath
           in str_includes normalizedPath ''/pages/'' \<or>
              (str_includes normalizedPath ''/app/'' \<and>
               \<not> str_includes normalizedPath ''/components/'')))"

definition isReactComponent :: "pathModule \<Rightarrow> string \<Rightarrow> bool" where
  "isReactComponent P filePath =
    (let ext = path_extname P filePath
     in if ext \<notin> set [''.tsx'', ''.jsx''] then False
        else
          (let fileName = path_basename_ext P filePath ext
           in isCapitalized fileName \<or> fileName = ''index''))"

definition createFileNode :: "pathModule \<Rightarrow> string \<Rightarrow> nat option \<Rightarrow> scanError + FileNode" where
  "createFileNode P filePath stats =
    (case stats of
       None \<Rightarrow> Inl (StatError filePath)
     | Some bytes \<Rightarrow>
        (let ext = path_extname P filePath;
             fileName = path_basename P filePath
         in Inr \<lparr>fn_name = fileName, fn_path = filePath, fn_size = Some bytes,
                  fn_extension = Some ext,
                  fn_isPage = isNextPage P filePath,
                  fn_isComponent = isReactComponent P filePath,
                  fn_isLayout = (fileName = ''layout.tsx'' \<or> fileName = ''layout.jsx'')\<rparr>))"

fun countFiles :: "treeNode list \<Rightarrow> nat" where
  "countFiles [] = 0"
| "countFiles (FileEntry f # children) = 1 + countFiles children"
| "countFiles (DirectoryEntry n p cs md # children) = countFiles cs + countFiles children"

primrec isDirectoryEntry :: "treeNode \<Rightarrow> bool" where
  "isDirectoryEntry (FileEntry f) = False"
| "isDirectoryEntry (DirectoryEntry n p cs md) = True"

primrec entryName :: "treeNode \<Rightarrow> string" where
  "entryName (FileEntry f) = fn_name f"
| "entryName (DirectoryEntry n p cs md) = n"

text \<open>The comparison function handed to \<^verbatim>\<open>sort\<close>.\<close>

definition compareEntries :: "(string \<Rightarrow> string \<Rightarrow> int) \<Rightarrow> treeNode \<Rightarrow> treeNode \<Rightarrow> int" where
  "compareEntries localeCompare a b =
    (if isDirectoryEntry a \<and> \<not> isDirectoryEntry b then - 1
     else if \<not> isDirectoryEntry a \<and> isDirectoryEntry b then 1
     else localeCompare (entryName a) (entryName b))"

text \<open>\<^verbatim>\<open>Array.prototype.sort\<close> is stable; with a comparison function it is the stable
  insertion of each element before the first one that it does not come after.\<close>

primrec insertBy :: "('a \<Rightarrow> 'a \<Rightarrow> int) \<Rightarrow> 'a \<Rightarrow> 'a list \<Rightarrow> 'a list" where
  "insertBy cmp x [] = [x]"
| "insertBy cmp x (y # ys) = (if cmp x y \<le> 0 then x # y # ys else y # insertBy cmp x ys)"

definition sortBy :: "('a \<Rightarrow> 'a \<Rightarrow> int) \<Rightarrow> 'a list \<Rightarrow> 'a list" where
  "sortBy cmp xs = foldr (insertBy cmp) xs []"

fun buildEntry ::
    "pathModule \<Rightarrow> (string \<Rightarrow> string \<Rightarrow> int) \<Rightarrow> string \<Rightarrow> fsEntry \<Rightarrow> scanError + treeNode option"
  and buildEntries ::
    "pathModule \<Rightarrow> (string \<Rightarrow> string \<Rightarrow> int) \<Rightarrow> string \<Rightarrow> fsEntry list \<Rightarrow> scanError + treeNode list"
where
  "buildEntry P lc dirPath (FsOther name) = Inr None"
| "buildEntry P lc dirPath (FsFile name stats) =
    (let entryPath = path_join P dirPath name;
         ext = path_extname P name
     in if ext \<in> set INCLUDE_EXTENSIONS then
          (case createFileNode P entryPath stats of
             Inl e \<Rightarrow> Inl e
           | Inr fileNode \<Rightarrow> Inr (Some (FileEntry fileNode)))
        else Inr None)"
| "buildEntry P lc dirPath (FsDirectory name contents) =
    (let entryPath = path_join P dirPath name
     in if name \<in> set EXCLUDE_DIRS then Inr None
        else
          (case contents of
             None \<Rightarrow> Inl (ReaddirError entryPath)
           | Some entries \<Rightarrow>
              (case buildEntries P lc entryPath entries of
                 Inl e \<Rightarrow> Inl e
               | Inr children \<Rightarrow>
                  (let ordered = sortBy (compareEntries lc) children;
                       fileCount = countFiles ordered
                   in Inr (Some (DirectoryEntry name entryPath ordered
                        (Some \<lparr>dm_fileCount = Some fileCount,
                               dm_isPages = (name = ''pages''),
                               dm_isApp = (name = ''app''),
                               dm_isComponents = (name = ''components'')\<rparr>)))))))"
| "buildEntries P lc dirPath [] = Inr []"
| "buildEntries P lc dirPath (entry # entries) =
    (case buildEntry P lc dirPath entry of
       Inl e \<Rightarrow> Inl e
     | Inr r \<Rightarrow>
        (case buildEntries P lc dirPath entries of
           Inl e \<Rightarrow> Inl e
         | Inr rs \<Rightarrow> Inr (case r of None \<Rightarrow> rs | Some n \<Rightarrow> n # rs)))"

definition buildDirectoryTree ::
    "pathModule \<Rightarrow> (string \<Rightarrow> string \<Rightarrow> int) \<Rightarrow> string \<Rightarrow> fsEntry list option \<Rightarrow>
     scanError + treeNode list" where
  "buildDirectoryTree P lc dirPath contents =
    (case contents of
       None \<Rightarrow> Inl (ReaddirError dirPath)
     | Some entries \<Rightarrow>
        (case buildEntries P lc dirPath entries of
           Inl e \<Rightarrow> Inl e
         | Inr children \<Rightarrow> Inr (sortBy (compareEntries lc) children)))"

definition scanProjectDirectory ::
    "pathModule \<Rightarrow> (string \<Rightarrow> string \<Rightarrow> int) \<Rightarrow> string \<Rightarrow> fsEntry list option \<Rightarrow>
     scanError + treeNode" where
  "scanProjectDirectory P lc projectRoot contents =
    (let rootName = path_basename P projectRoot
     in case buildDirectoryTree P lc projectRoot contents of
          Inl e \<Rightarrow> Inl e
        | Inr children \<Rightarrow> Inr (DirectoryEntry rootName projectRoot children None))"

section \<open>Vocabulary of the specification\<close>






























text \<open>The size issues of the single-responsibility detector are told apart from its
  mixed-concerns issue by their identifier.\<close>

definition isSizeIssue :: "SolidIssue \<Rightarrow> bool" where
  "isSizeIssue i = (startsWith (si_id i) ''srp-large-component-'' \<or>
                    startsWith (si_id i) ''srp-medium-component-'')"

definition bucketsWithTwo :: "typeElement list \<Rightarrow> nat" where
  "bucketsWithTwo members =
     length (filter (\<lambda>bucket. 2 \<le> length bucket)
       [uiProps members, dataProps members, eventProps members])"

definition sampleFile :: FileNode where
  "sampleFile = \<lparr>fn_name = ''App.tsx'', fn_path = ''/src/App.tsx'', fn_size = Some 1200,
     fn_extension = Some ''.tsx'', fn_isPage = False, fn_isComponent = True, fn_isLayout = False\<rparr>"

definition functionComponent :: "string \<Rightarrow> int \<Rightarrow> int \<Rightarrow> node" where
  "functionComponent name startLine endLine =
     Node ''FunctionDeclaration'' (Some (startLine, endLine)) []
       [(''id'', Node ''Identifier'' None [(''name'', name)] [] [])] []"

definition propertySignature :: "string \<Rightarrow> typeElement" where
  "propertySignature name = TypeElement ''TSPropertySignature'' (Some name) None"

text \<open>
  The score of one principle in the words of the specification: the count of the principle's
  issues of each severity, weighted 1, 3 and 10, divided by the normalisation factor,
  subtracted from 100 and floored at 0; \<open>exactScore\<close> in exact arithmetic with the
  logarithm to base 10, \<open>roundedScore\<close> with the division and the subtraction rounded to
  doubles and the logarithm of the runtime. The example takes the correctly rounded
  logarithm as \<^verbatim>\<open>Math.log10\<close>.
\<close>

definition issueCount :: "SolidIssue list \<Rightarrow> principle \<Rightarrow> severity \<Rightarrow> nat" where
  "issueCount issues p s = length (filter (\<lambda>i. si_principle i = p \<and> si_severity i = s) issues)"

definition weightedCount :: "SolidIssue list \<Rightarrow> principle \<Rightarrow> nat" where
  "weightedCount issues p =
     1 * issueCount issues p Info + 3 * issueCount issues p Warning +
     10 * issueCount issues p Critical"

definition roundedScore :: "(nat \<Rightarrow> real) \<Rightarrow> SolidIssue list \<Rightarrow> nat \<Rightarrow> principle \<Rightarrow> real" where
  "roundedScore log10 issues filesAnalyzed p =
     max 0 (dsub 100 (ddiv (real (weightedCount issues p)) (normalizationFactor log10 filesAnalyzed)))"

definition exactScore :: "SolidIssue list \<Rightarrow> nat \<Rightarrow> principle \<Rightarrow> real" where
  "exactScore issues filesAnalyzed p =
     max 0 (100 - real (weightedCount issues p) / max 1 (log 10 (real filesAnalyzed)))"

definition sampleLog10 :: "nat \<Rightarrow> real" where
  "sampleLog10 n = roundToDouble (log 10 (real n))"

definition issueOf :: "principle \<Rightarrow> severity \<Rightarrow> SolidIssue" where
  "issueOf p s = \<lparr>si_id = ''issue'', si_principle = p, si_severity = s, si_description = [],
     si_filePath = ''/src/App.tsx'', si_recommendation = []\<rparr>"

definition sampleIssues :: "SolidIssue list" where
  "sampleIssues = [issueOf LSP Info, issueOf ISP Info, issueOf DIP Critical, issueOf DIP Warning]"

text \<open>The candidates of the import resolution in the words of the specification: the
  literal path with each extension of the fixed list appended, then the index file under each
  extension.\<close>

definition resolutionCandidates :: "pathModule \<Rightarrow> string \<Rightarrow> string list" where
  "resolutionCandidates P resolvedPath =
     map (\<lambda>ext. resolvedPath @ ext) [''.ts'', ''.tsx'', ''.js'', ''.jsx''] @
     map (\<lambda>ext. path_join P resolvedPath (''index'' @ ext)) [''.ts'', ''.tsx'', ''.js'', ''.jsx'']"

text \<open>A small stand-in for the path library, for examples: absolute paths with \<open>/\<close>, a
  specifier of the form \<open>./name\<close>.\<close>

definition sample_basename :: "string \<Rightarrow> string" where
  "sample_basename p = rev (takeWhile (\<lambda>c. c \<noteq> CHR ''/'') (rev p))"

definition sample_extname :: "string \<Rightarrow> string" where
  "sample_extname p =
     (let b = sample_basename p
      in if CHR ''.'' \<in> set (drop 1 b)
         then CHR ''.'' # rev (takeWhile (\<lambda>c. c \<noteq> CHR ''.'') (rev b)) else [])"

definition samplePath :: pathModule where
  "samplePath =
     \<lparr>path_dirname = (\<lambda>p. rev (drop 1 (dropWhile (\<lambda>c. c \<noteq> CHR ''/'') (rev p)))),
      path_resolve = (\<lambda>dir s. if startsWith s ''./'' then dir @ drop 1 s else s),
      path_extname = sample_extname,
      path_join = (\<lambda>a b. a @ ''/'' @ b),
      path_basename = sample_basename,
      path_basename_ext = (\<lambda>p ext. take (length (sample_basename p) - length ext) (sample_basename p))\<rparr>"

text \<open>An example project: \<open>App.tsx\<close> imports \<open>Button\<close> and itself.\<close>

definition sampleParser :: parser where
  "sampleParser p =
    (if p = ''/src/App.tsx'' then
       Some \<lparr>pf_components = [functionComponent ''App'' 1 20],
             pf_typeDefinitions = [],
             pf_imports = [ImportDecl ''./Button'' [ImportSpecifier ''ImportDefaultSpecifier'' ''Button''],
                           ImportDecl ''./App'' [ImportSpecifier ''ImportSpecifier'' ''App'']],
             pf_exports = [ExportDecl ''ExportDefaultDeclaration'' []]\<rparr>
     else if p = ''/src/Button.tsx'' then
       Some \<lparr>pf_components = [functionComponent ''Button'' 1 10],
             pf_typeDefinitions = [],
             pf_imports = [ImportDecl ''react'' [ImportSpecifier ''ImportDefaultSpecifier'' ''React'']],
             pf_exports = [ExportDecl ''ExportDefaultDeclaration'' []]\<rparr>
     else None)"

definition sampleFiles :: "FileNode list" where
  "sampleFiles =
     [sampleFile\<lparr>fn_name := ''App.tsx'', fn_path := ''/src/App.tsx''\<rparr>,
      sampleFile\<lparr>fn_name := ''Button.tsx'', fn_path := ''/src/Button.tsx''\<rparr>]"


text \<open>Invariants of the second pass of the component graph builder.\<close>

definition noSelfEdge :: "relationPass \<Rightarrow> bool" where
  "noSelfEdge s = (\<forall>r \<in> set (relationships s). cr_source r \<noteq> cr_target r)"

definition contentDerivedId :: "ComponentNodeData \<Rightarrow> bool" where
  "contentDerivedId n = (cn_id n = cn_filePath n @ '':'' @ cn_label n)"

definition nodesContentDerived :: "relationPass \<Rightarrow> bool" where
  "nodesContentDerived s = (\<forall>n \<in> set (rp_nodes s). contentDerivedId n)"

text \<open>
  The order of the children of a directory in the words of the specification: all directory
  entries before all file entries, and each of the two groups ordered by name. The order on
  names is the one of the comparison handed to the scan, which has to be a total preorder;
  \<open>lexCompare\<close> is the lexicographic comparison of the code units.
\<close>

definition consistentOrder :: "(string \<Rightarrow> string \<Rightarrow> int) \<Rightarrow> bool" where
  "consistentOrder lc =
     ((\<forall>a b. lc a b \<le> 0 \<or> lc b a \<le> 0) \<and>
      (\<forall>a b c. lc a b \<le> 0 \<and> lc b c \<le> 0 \<longrightarrow> lc a c \<le> 0))"

definition orderedByName :: "(string \<Rightarrow> string \<Rightarrow> int) \<Rightarrow> treeNode list \<Rightarrow> bool" where
  "orderedByName lc xs = sorted_wrt (\<lambda>a b. lc (entryName a) (entryName b) \<le> 0) xs"

definition childrenSorted :: "(string \<Rightarrow> string \<Rightarrow> int) \<Rightarrow> treeNode list \<Rightarrow> bool" where
  "childrenSorted lc children =
     (children = filter isDirectoryEntry children @ filter (\<lambda>c. \<not> isDirectoryEntry c) children \<and>
      orderedByName lc (filter isDirectoryEntry children) \<and>
      orderedByName lc (filter (\<lambda>c. \<not> isDirectoryEntry c) children))"

fun treeSorted :: "(string \<Rightarrow> string \<Rightarrow> int) \<Rightarrow> treeNode \<Rightarrow> bool" where
  "treeSorted lc (FileEntry f) = True"
| "treeSorted lc (DirectoryEntry n p cs md) = (childrenSorted lc cs \<and> list_all (treeSorted lc) cs)"

fun lexCompare :: "string \<Rightarrow> string \<Rightarrow> int" where
  "lexCompare [] [] = 0"
| "lexCompare [] (y # ys) = - 1"
| "lexCompare (x # xs) [] = 1"
| "lexCompare (x # xs) (y # ys) =
     (if (of_char x :: nat) < of_char y then - 1
      else if (of_char y :: nat) < of_char x then 1
      else lexCompare xs ys)"

text \<open>
  A stand-in for \<^verbatim>\<open>String.prototype.localeCompare\<close> on names made of letters
  \<open>a\<close> to \<open>z\<close> and \<open>A\<close> to \<open>Z\<close>, digits and dots, as the collation of the runtime
  orders such names: the names are compared letter by letter without regard to case, and
  names that are equal up to case are ordered by case, lower case first.
\<close>

definition asciiLower :: "char \<Rightarrow> char" where
  "asciiLower c =
     (if 65 \<le> (of_char c :: nat) \<and> (of_char c :: nat) \<le> 90 then char_of (of_char c + 32 :: nat) else c)"

definition caseMark :: "char \<Rightarrow> char" where
  "caseMark c =
     (if 65 \<le> (of_char c :: nat) \<and> (of_char c :: nat) \<le> 90 then CHR ''1'' else CHR ''0'')"

definition sampleLocaleCompare :: "string \<Rightarrow> string \<Rightarrow> int" where
  "sampleLocaleCompare a b =
     (let letters = lexCompare (map asciiLower a) (map asciiLower b)
      in if letters \<noteq> 0 then letters else lexCompare (map caseMark a) (map caseMark b))"

definition mixedCaseDirectory :: "fsEntry list option" where
  "mixedCaseDirectory =
     Some [FsFile ''B.ts'' (Some 10),
           FsDirectory ''Zeta'' (Some []),
           FsFile ''a.ts'' (Some 3),
           FsDirectory ''node_modules'' None,
           FsDirectory ''alpha'' (Some [])]"

definition mixedCaseScan :: treeNode where
  "mixedCaseScan =
     DirectoryEntry ''proj'' ''/proj''
       [DirectoryEntry ''alpha'' ''/proj/alpha'' []
          (Some \<lparr>dm_fileCount = Some 0, dm_isPages = False, dm_isApp = False,
                 dm_isComponents = False\<rparr>),
        DirectoryEntry ''Zeta'' ''/proj/Zeta'' []
          (Some \<lparr>dm_fileCount = Some 0, dm_isPages = False, dm_isApp = False,
                 dm_isComponents = False\<rparr>),
        FileEntry \<lparr>fn_name = ''a.ts'', fn_path = ''/proj/a.ts'', fn_size = Some 3,
          fn_extension = Some ''.ts'', fn_isPage = False, fn_isComponent = False,
          fn_isLayout = False\<rparr>,
        FileEntry \<lparr>fn_name = ''B.ts'', fn_path = ''/proj/B.ts'', fn_size = Some 10,
          fn_extension = Some ''.ts'', fn_isPage = False, fn_isComponent = False,
          fn_isLayout = False\<rparr>]
       None"

text \<open>
  The dependency map as a graph: an edge from a key to every member of its dependency set. A
  cycle is given by its nodes in order, each named once, with an edge from each node to the
  next and from the last to the first. A map has \<open>c\<close> as its only cycle when \<open>c\<close> is a
  cycle of the map and every cycle of the map is \<open>c\<close> started at another of its nodes.
  \<open>cycleRecord\<close> is the record that the detector builds from the nodes of a cycle.
\<close>

definition edge :: "(string \<times> string list) list \<Rightarrow> string \<Rightarrow> string \<Rightarrow> bool" where
  "edge m u v = (\<exists>ds. map_of m u = Some ds \<and> v \<in> set ds)"

definition isCycle :: "(string \<times> string list) list \<Rightarrow> string list \<Rightarrow> bool" where
  "isCycle m s = (s \<noteq> [] \<and> distinct s \<and> successively (edge m) s \<and> edge m (last s) (hd s))"

definition cycleRecord :: "(string \<times> string) list \<Rightarrow> string list \<Rightarrow> CircularDependency" where
  "cycleRecord names s =
     \<lparr>cd_path = map (moduleName names) s,
      cd_severity = (if length s > 3 then CycleCritical else CycleWarning)\<rparr>"

text \<open>
  Invariants of the traversal: the nodes being explored are those of the current path, which
  follows edges and names no node twice; a call changes neither the set of nodes being
  explored nor the records found before it, and every record that it adds is the record of a
  cycle that lies at the end of an extension of the current path.
\<close>

definition dfsInv :: "(string \<times> string list) list \<Rightarrow> string list \<Rightarrow> dfsState \<Rightarrow> bool" where
  "dfsInv m path st =
     (stack st = set path \<and> distinct path \<and> successively (edge m) path \<and>
      visited st \<inter> stack st = {})"

definition reported ::
  "(string \<times> string list) list \<Rightarrow> (string \<times> string) list \<Rightarrow> string list \<Rightarrow> CircularDependency \<Rightarrow> bool" where
  "reported m names path r =
     (\<exists>s. isCycle m s \<and> r = cycleRecord names s \<and>
          (\<exists>pre q. path @ q = pre @ s \<and> distinct (path @ q)))"

definition dfsFrame ::
  "(string \<times> string list) list \<Rightarrow> (string \<times> string) list \<Rightarrow> string list \<Rightarrow> dfsState \<Rightarrow> dfsState \<Rightarrow> bool" where
  "dfsFrame m names path st st' =
     (stack st' = stack st \<and> visited st \<subseteq> visited st' \<and> visited st' \<inter> stack st = {} \<and>
      (\<exists>new. found st' = found st @ new \<and> (\<forall>r \<in> set new. reported m names path r)))"

definition onlyCycle :: "(string \<times> string list) list \<Rightarrow> string list \<Rightarrow> bool" where
  "onlyCycle m c = (isCycle m c \<and> (\<forall>s. isCycle m s \<longrightarrow> (\<exists>n. s = rotate n c)))"

text \<open>
  A dependency set is a \<^verbatim>\<open>Set\<close>, so it lists each member once.
\<close>

definition setsDistinct :: "(string \<times> string list) list \<Rightarrow> bool" where
  "setsDistinct m = (\<forall>ds \<in> set (map snd m). distinct ds)"

text \<open>
  For a map with the only cycle \<open>c\<close>: a dependency closes the cycle when it lies on the
  current path and the path from it onwards is the cycle; once a node of the cycle is fully
  explored the cycle has been found, and a call adds at most one record.
\<close>

definition backEdge :: "string list \<Rightarrow> string list \<Rightarrow> string \<Rightarrow> bool" where
  "backEdge c path d = (d \<in> set path \<and> (\<exists>n. dropWhile (\<lambda>p. p \<noteq> d) path = rotate n c))"

definition cycleSeen :: "string list \<Rightarrow> dfsState \<Rightarrow> bool" where
  "cycleSeen c st = (set c \<inter> visited st \<noteq> {} \<longrightarrow> found st \<noteq> [])"

definition cycleStep :: "string list \<Rightarrow> string list \<Rightarrow> dfsState \<Rightarrow> dfsState \<Rightarrow> bool \<Rightarrow> bool" where
  "cycleStep c path st st' B =
     ((set c \<inter> visited st \<noteq> {} \<longrightarrow> found st' = found st) \<and>
      (set c \<inter> visited st = {} \<longrightarrow>
         found st' = found st \<or>
         ((\<exists>r. found st' = found st @ [r]) \<and>
          (if set c \<subseteq> set path then B else set c \<inter> visited st' \<noteq> {}))))"

definition acyclicMap :: "(string \<times> string list) list \<Rightarrow> bool" where
  "acyclicMap m = (\<forall>s. \<not> isCycle m s)"

text \<open>Example maps: a cycle of three modules, the same cycle with another key inserted
  first, a cycle of two and of four modules, and a diamond without a cycle.\<close>

definition sampleNames :: "(string \<times> string) list" where
  "sampleNames = [(''/a'', ''a''), (''/b'', ''b''), (''/c'', ''c''), (''/d'', ''d'')]"

definition cycleMap :: "(string \<times> string list) list" where
  "cycleMap = [(''/a'', [''/b'']), (''/b'', [''/c'']), (''/c'', [''/a''])]"

definition rotatedMap :: "(string \<times> string list) list" where
  "rotatedMap = [(''/b'', [''/c'']), (''/c'', [''/a'']), (''/a'', [''/b''])]"

definition pairMap :: "(string \<times> string list) list" where
  "pairMap = [(''/a'', [''/b'']), (''/b'', [''/a''])]"

definition ringMap :: "(string \<times> string list) list" where
  "ringMap = [(''/a'', [''/b'']), (''/b'', [''/c'']), (''/c'', [''/d'']), (''/d'', [''/a''])]"

definition diamondMap :: "(string \<times> string list) list" where
  "diamondMap = [(''/a'', [''/b'', ''/c'']), (''/b'', [''/d'']), (''/c'', [''/d'']), (''/d'', [])]"

section \<open>Properties of the principle detectors and the scores\<close>

lemma startsWith_Nil [simp]: "startsWith s []"
  by (simp add: startsWith_def)

lemma startsWith_Cons [simp]: "startsWith (c # s) (d # p) = (c = d \<and> startsWith s p)"
  by (auto simp: startsWith_def)

lemma startsWith_Nil_Cons [simp]: "\<not> startsWith [] (d # p)"
  by (simp add: startsWith_def)

lemma hasMixedConcerns_leaf: "nsingles n = [(''id'', Node ''Identifier'' None ss [] [])] \<Longrightarrow> narrays n = [] \<Longrightarrow>
   ntype n = ''FunctionDeclaration'' \<Longrightarrow> \<not> hasMixedConcerns n"
  by (simp add: hasMixedConcerns_def hasMixedConcerns_traverse.simps[of n] Let_def
      visit_body_def visit_one_def visit_all_def get_one_def get_arr_def mixed_mark_def)

text \<open>
  C3, as stated, fails: a function component from line 1 to line 201 has end line minus
  start line equal to 200, which does not exceed 200, and the detector still emits its
  critical size issue, because it measures end line minus start line plus one.
\<close>

theorem srp_span_counterexample:
  "\<not> (200 < (201::int) - 1) \<and>
   map si_severity (analyzeSRP sampleFile [functionComponent ''App'' 1 201]) = [Critical]"
  by (simp add: analyzeSRP_component_def getComponentSize_def loc_lines_def Let_def
      functionComponent_def hasMixedConcerns_leaf)

text \<open>
  C3, amended: for every component of a file the single-responsibility detector emits exactly
  one size issue of severity critical when the estimated line count
  (\<^const>\<open>getComponentSize\<close>: end line minus start line plus one of the function, of the
  class body or of the variable initialiser) exceeds 200, exactly one size issue of severity
  warning when it exceeds 100 but not 200, and no size issue otherwise; critical issues come
  from the size check only; the issues of a list of components are those of each component in
  turn; and a function declaration of 250 lines yields exactly one critical issue.
\<close>

theorem srp_size_thresholds:
  "map si_severity (filter isSizeIssue (analyzeSRP file [c])) =
     (if 200 < getComponentSize c then [Critical]
      else if 100 < getComponentSize c then [Warning] else []) \<and>
   length (filter (\<lambda>i. si_severity i = Critical) (analyzeSRP file [c])) =
     (if 200 < getComponentSize c then 1 else 0) \<and>
   analyzeSRP file (c # cs) = analyzeSRP file [c] @ analyzeSRP file cs \<and>
   ((ntype c = ''FunctionDeclaration'' \<or> ntype c = ''ArrowFunctionExpression'' \<or>
     ntype c = ''FunctionExpression'') \<and> nloc c = Some (startLine, endLine) \<longrightarrow>
      getComponentSize c = endLine - startLine + 1) \<and>
   (ntype c = ''ClassDeclaration'' \<and> get_one c ''body'' = Some b \<and>
     nloc b = Some (startLine, endLine) \<longrightarrow> getComponentSize c = endLine - startLine + 1) \<and>
   (ntype c = ''VariableDeclarator'' \<and> get_one c ''init'' = Some b \<and>
     nloc b = Some (startLine, endLine) \<longrightarrow> getComponentSize c = endLine - startLine + 1) \<and>
   (ntype c = ''FunctionDeclaration'' \<and> nloc c = Some (startLine, startLine + 249) \<longrightarrow>
      map si_severity (filter (\<lambda>i. si_severity i = Critical) (analyzeSRP file [c])) = [Critical])"
  by (auto simp: analyzeSRP_component_def isSizeIssue_def Let_def getComponentSize_def loc_lines_def)

text \<open>C3, witness: a function declaration from line 10 to line 259.\<close>

theorem srp_size_thresholds_witness:
  "getComponentSize (functionComponent ''Big'' 10 259) = 250 \<and>
   map si_severity (filter isSizeIssue (analyzeSRP sampleFile [functionComponent ''Big'' 10 259]))
     = [Critical] \<and>
   map si_severity (filter (\<lambda>i. si_severity i = Critical)
      (analyzeSRP sampleFile [functionComponent ''Big'' 10 259])) = [Critical]"
  using srp_size_thresholds[of sampleFile "functionComponent ''Big'' 10 259" "[]" 10 259 undefined]
  by (simp add: functionComponent_def)

text \<open>
  C10: a component whose function node, class body or variable initialiser (whichever its
  type makes the detector read) has no location gets the default size 50, and the detector
  emits no size issue for it.
\<close>

theorem srp_default_size_without_location:
  assumes "ntype c = ''FunctionDeclaration'' \<or> ntype c = ''ArrowFunctionExpression'' \<or>
           ntype c = ''FunctionExpression'' \<Longrightarrow> nloc c = None"
    and "\<And>b. ntype c = ''ClassDeclaration'' \<Longrightarrow> get_one c ''body'' = Some b \<Longrightarrow> nloc b = None"
    and "\<And>i. ntype c = ''VariableDeclarator'' \<Longrightarrow> get_one c ''init'' = Some i \<Longrightarrow> nloc i = None"
  shows "getComponentSize c = 50 \<and> filter isSizeIssue (analyzeSRP file [c]) = []"
proof -
  have "getComponentSize c = 50"
    using assms by (auto simp: getComponentSize_def split: option.splits)
  then show ?thesis
    by (simp add: analyzeSRP_component_def isSizeIssue_def Let_def)
qed

text \<open>C10, witness: a variable declarator whose arrow function has no location.\<close>

theorem srp_default_size_without_location_witness:
  "getComponentSize (Node ''VariableDeclarator'' None []
      [(''init'', Node ''ArrowFunctionExpression'' None [] [] [])] []) = 50 \<and>
   filter isSizeIssue (analyzeSRP sampleFile [Node ''VariableDeclarator'' None []
      [(''init'', Node ''ArrowFunctionExpression'' None [] [] [])] []]) = []"
  by (rule srp_default_size_without_location) (simp_all add: get_one_def)

text \<open>
  C7, as stated, fails: an interface of four members, two of them presentation-related and
  two data-related, is not flagged, although two buckets hold two members each.
\<close>

theorem isp_small_interface_counterexample:
  "length (uiProps [propertySignature ''style'', propertySignature ''color'', propertySignature ''data'', propertySignature ''value'']) = 2 \<and>
   length (dataProps [propertySignature ''style'', propertySignature ''color'', propertySignature ''data'', propertySignature ''value'']) = 2 \<and>
   analyzeISP sampleFile [TypeDefinition ''TSInterfaceDeclaration'' ''Props'' None
       [propertySignature ''style'', propertySignature ''color'', propertySignature ''data'', propertySignature ''value'']] = []"
  by (simp add: uiProps_def dataProps_def keyIncludes_def propertySignature_def
      analyzeISP_typeDefinition_def hasUnrelatedProps_def Let_def)

text \<open>
  C7, amended: for every interface declaration the interface-segregation detector emits a
  warning exactly when the interface has more than 10 members, followed by an info issue
  exactly when the interface has more than 5 members and at least 2 of the three buckets
  (presentation, data, event handler) hold at least 2 members each; other type declarations
  yield no issue; the issues of a list of declarations are those of each declaration in turn.
\<close>

theorem isp_flags:
  "(td_type td = ''TSInterfaceDeclaration'' \<longrightarrow>
     map si_severity (analyzeISP file [td]) =
       (if 10 < length (td_members td) then [Warning] else []) @
       (if 5 < length (td_members td) \<and> 2 \<le> bucketsWithTwo (td_members td)
        then [Info] else [])) \<and>
   (td_type td \<noteq> ''TSInterfaceDeclaration'' \<longrightarrow> analyzeISP file [td] = []) \<and>
   analyzeISP file (td # tds) = analyzeISP file [td] @ analyzeISP file tds"
  by (auto simp: analyzeISP_typeDefinition_def hasUnrelatedProps_def Let_def bucketsWithTwo_def)

text \<open>C7, witness: six members, two presentation-related and two data-related.\<close>

theorem isp_flags_witness:
  "map si_severity (analyzeISP sampleFile [TypeDefinition ''TSInterfaceDeclaration'' ''Props'' None
       [propertySignature ''style'', propertySignature ''color'', propertySignature ''data'', propertySignature ''value'', propertySignature ''id'', propertySignature ''key'']])
     = [Info]"
  using isp_flags[of "TypeDefinition ''TSInterfaceDeclaration'' ''Props'' None
       [propertySignature ''style'', propertySignature ''color'', propertySignature ''data'', propertySignature ''value'', propertySignature ''id'', propertySignature ''key'']"
       sampleFile "[]"]
  by (simp add: bucketsWithTwo_def uiProps_def dataProps_def eventProps_def keyIncludes_def propertySignature_def)
















lemma binade_iff:
  assumes "x \<noteq> 0"
  shows "binade x = e \<longleftrightarrow> 2 powi e \<le> \<bar>x\<bar> \<and> \<bar>x\<bar> < 2 powi (e + 1)"
proof -
  have "0 < \<bar>x\<bar>" using assms by simp
  then have "\<lfloor>log 2 \<bar>x\<bar>\<rfloor> = e \<longleftrightarrow> 2 powr (of_int e) \<le> \<bar>x\<bar> \<and> \<bar>x\<bar> < 2 powr (of_int (e + 1))"
    using floor_log_eq_powr_iff[of "\<bar>x\<bar>" 2 e] by simp
  moreover have "(2::real) powr (of_int e) = 2 powi e" by (rule powr_real_of_int') simp_all
  moreover have "(2::real) powr (of_int (e + 1)) = 2 powi (e + 1)" by (rule powr_real_of_int') simp_all
  ultimately show ?thesis by (simp add: binade_def)
qed

lemma binade_bounds:
  "x \<noteq> 0 \<Longrightarrow> 2 powi binade x \<le> \<bar>x\<bar>" "x \<noteq> 0 \<Longrightarrow> \<bar>x\<bar> < 2 powi (binade x + 1)"
  using binade_iff[of x "binade x"] by simp_all

lemma roundEven_cases: "roundEven y = \<lfloor>y\<rfloor> \<or> roundEven y = \<lfloor>y\<rfloor> + 1"
  by (simp add: roundEven_def Let_def)

lemma roundEven_of_int [simp]: "roundEven (of_int n) = n"
  by (simp add: roundEven_def Let_def)

lemma roundEven_le: "y \<le> of_int n \<Longrightarrow> roundEven y \<le> n"
proof (cases "y = of_int n")
  case True
  then show ?thesis by simp
next
  case False
  assume "y \<le> of_int n"
  with False have "y < of_int n" by simp
  then have "\<lfloor>y\<rfloor> < n" by (simp add: floor_less_iff)
  with roundEven_cases[of y] show ?thesis by linarith
qed

lemma roundEven_ge: "of_int n \<le> y \<Longrightarrow> n \<le> roundEven y"
proof -
  assume "of_int n \<le> y"
  then have "n \<le> \<lfloor>y\<rfloor>" by (simp add: le_floor_iff)
  with roundEven_cases[of y] show ?thesis by linarith
qed

lemma roundToDouble_nonneg: "0 \<le> x \<Longrightarrow> 0 \<le> roundToDouble x"
proof (cases "x = 0")
  case True
  then show ?thesis by (simp add: roundToDouble_def)
next
  case False
  assume "0 \<le> x"
  let ?u = "(2::real) powi (binade x - 52)"
  have u: "0 < ?u" by simp
  then have "of_int 0 \<le> x / ?u" using \<open>0 \<le> x\<close> by simp
  then have "0 \<le> roundEven (x / ?u)" by (rule roundEven_ge)
  then show ?thesis using False u by (simp add: roundToDouble_def)
qed

lemma roundToDouble_nonpos: "x \<le> 0 \<Longrightarrow> roundToDouble x \<le> 0"
proof (cases "x = 0")
  case True
  then show ?thesis by (simp add: roundToDouble_def)
next
  case False
  assume "x \<le> 0"
  let ?u = "(2::real) powi (binade x - 52)"
  have u: "0 < ?u" by simp
  then have "x / ?u \<le> of_int 0" using \<open>x \<le> 0\<close> by (simp add: divide_nonpos_pos)
  then have "roundEven (x / ?u) \<le> 0" by (rule roundEven_le)
  then have "of_int (roundEven (x / ?u)) * ?u \<le> 0"
    using u by (simp add: mult_le_0_iff)
  then show ?thesis using False by (simp add: roundToDouble_def)
qed

lemma roundToDouble_le_nat:
  assumes "0 < x" "x \<le> real K" "K < 2 ^ 53"
  shows "roundToDouble x \<le> real K"
proof -
  let ?e = "binade x"
  let ?u = "(2::real) powi (?e - 52)"
  have x0: "x \<noteq> 0" using assms(1) by simp
  have u: "0 < ?u" by simp
  have lo: "2 powi ?e \<le> x" and hi: "x < 2 powi (?e + 1)"
    using binade_bounds[OF x0] assms(1) by simp_all
  have r: "roundToDouble x = of_int (roundEven (x / ?u)) * ?u"
    using x0 by (simp add: roundToDouble_def)
  have top: "(2::real) powi (?e + 1) = of_int (2 ^ 53) * ?u"
  proof -
    have "(2::real) powi (?e + 1) = 2 powi (53 + (?e - 52))"
      by (rule arg_cong[where f = "\<lambda>k. 2 powi k"]) simp
    also have "\<dots> = 2 powi 53 * ?u" by (subst power_int_add) simp_all
    finally show ?thesis by simp
  qed
  show ?thesis
  proof (cases "real K < 2 powi (?e + 1)")
    case False
    have "x / ?u < of_int (2 ^ 53)" using hi u unfolding top by (simp add: field_simps)
    then have "roundEven (x / ?u) \<le> 2 ^ 53" by (intro roundEven_le) simp
    then have "of_int (roundEven (x / ?u)) * ?u \<le> of_int (2 ^ 53) * ?u"
      using u by (intro mult_right_mono) simp_all
    then have "roundToDouble x \<le> 2 powi (?e + 1)" unfolding r top .
    with False show ?thesis by linarith
  next
    case True
    have "(2::real) powi ?e < 2 powi 53"
    proof -
      have "(2::real) powi ?e \<le> real K" using lo assms(2) by simp
      also have "\<dots> < 2 ^ 53" using assms(3) by (metis of_nat_less_iff of_nat_numeral of_nat_power)
      finally show ?thesis by simp
    qed
    then have "?e < 53" using power_int_le_imp_less_exp[of "2::real" ?e 53] by simp
    then have e52: "0 \<le> 52 - ?e" by simp
    have inv: "?u * 2 ^ nat (52 - ?e) = 1"
    proof -
      have "(2::real) ^ nat (52 - ?e) = 2 powi (52 - ?e)" using e52 by (simp add: power_int_nonneg_exp)
      then have "?u * 2 ^ nat (52 - ?e) = 2 powi ((?e - 52) + (52 - ?e))"
        by (subst power_int_add) simp_all
      then show ?thesis by simp
    qed
    let ?k = "int K * 2 ^ nat (52 - ?e)"
    have ku: "of_int ?k * ?u = real K" using inv by (simp add: mult.assoc mult.commute)
    have "x / ?u \<le> of_int ?k"
    proof -
      have "x \<le> of_int ?k * ?u" unfolding ku by (rule assms(2))
      then show ?thesis using u by (simp add: field_simps)
    qed
    then have "roundEven (x / ?u) \<le> ?k" by (rule roundEven_le)
    then have le: "(of_int (roundEven (x / ?u)) :: real) \<le> of_int ?k"
      by (rule iffD2[OF of_int_le_iff])
    have "of_int (roundEven (x / ?u)) * ?u \<le> of_int ?k * ?u"
      by (rule mult_right_mono[OF le]) (use u in simp)
    then show ?thesis unfolding r ku .
  qed
qed

lemma roundToDouble_nat:
  assumes "n < 2 ^ 53"
  shows "roundToDouble (real n) = real n"
proof (cases "n = 0")
  case True
  then show ?thesis by (simp add: roundToDouble_def)
next
  case False
  let ?x = "real n"
  let ?e = "binade ?x"
  let ?u = "(2::real) powi (?e - 52)"
  have x0: "?x \<noteq> 0" using False by simp
  have u: "0 < ?u" by simp
  have lo: "2 powi ?e \<le> ?x" using binade_bounds(1)[OF x0] by simp
  have "(2::real) powi ?e < 2 powi 53"
  proof -
    have "?x < 2 ^ 53" using assms by (metis of_nat_less_iff of_nat_numeral of_nat_power)
    with lo show ?thesis by simp
  qed
  then have "?e < 53" using power_int_le_imp_less_exp[of "2::real" ?e 53] by simp
  then have e52: "0 \<le> 52 - ?e" by simp
  have inv: "?u * 2 ^ nat (52 - ?e) = 1"
  proof -
    have "(2::real) ^ nat (52 - ?e) = 2 powi (52 - ?e)" using e52 by (simp add: power_int_nonneg_exp)
    then have "?u * 2 ^ nat (52 - ?e) = 2 powi ((?e - 52) + (52 - ?e))"
      by (subst power_int_add) simp_all
    then show ?thesis by simp
  qed
  let ?k = "int n * 2 ^ nat (52 - ?e)"
  have ku: "of_int ?k * ?u = ?x" using inv by (simp add: mult.assoc mult.commute)
  have "?x / ?u = of_int ?k" using ku u by (simp add: field_simps)
  then have "roundEven (?x / ?u) = ?k" by (metis roundEven_of_int)
  then have "roundToDouble ?x = of_int ?k * ?u" using x0 by (simp add: roundToDouble_def)
  with ku show ?thesis by simp
qed

lemma roundToDouble_0 [simp]: "roundToDouble 0 = 0"
  by (simp add: roundToDouble_def)

lemma roundToDouble_1 [simp]: "roundToDouble 1 = 1"
  using roundToDouble_nat[of 1] by simp

lemma roundToDouble_numeral: "(numeral k :: nat) < 2 ^ 53 \<Longrightarrow> roundToDouble (numeral k) = numeral k"
  using roundToDouble_nat[of "numeral k"] by simp

lemma dadd_nat: "a + b < 2 ^ 53 \<Longrightarrow> dadd (real a) (real b) = real (a + b)"
  using roundToDouble_nat[of "a + b"] by (simp add: dadd_def)

lemma dmul_nat: "a * b < 2 ^ 53 \<Longrightarrow> dmul (real a) (real b) = real (a * b)"
  using roundToDouble_nat[of "a * b"] by (simp add: dmul_def)

lemma countIssue_exact:
  "(\<And>p s. c p s + length issues < 2 ^ 53) \<Longrightarrow>
   fold countIssue issues (\<lambda>p s. real (c p s)) p s = real (c p s + issueCount issues p s)"
proof (induction issues arbitrary: c)
  case Nil
  then show ?case by (simp add: issueCount_def)
next
  case (Cons i issues)
  let ?c = "\<lambda>p s. if p = si_principle i \<and> s = si_severity i then c p s + 1 else c p s"
  have step: "countIssue i (\<lambda>p s. real (c p s)) = (\<lambda>p s. real (?c p s))"
  proof (intro ext)
    fix p s
    have "c (si_principle i) (si_severity i) + 1 < 2 ^ 53"
      using Cons.prems[of "si_principle i" "si_severity i"] by simp
    then have "dadd (real (c (si_principle i) (si_severity i))) 1 =
        real (c (si_principle i) (si_severity i) + 1)"
      using dadd_nat[of "c (si_principle i) (si_severity i)" 1] by simp
    then show "countIssue i (\<lambda>p s. real (c p s)) p s = real (?c p s)"
      by (simp add: countIssue_def)
  qed
  have "?c p s + length issues < 2 ^ 53" for p s
    using Cons.prems[of p s] by auto
  from Cons.IH[of ?c, OF this]
  have "fold countIssue issues (\<lambda>p s. real (?c p s)) p s = real (?c p s + issueCount issues p s)" .
  then show ?case by (simp add: step issueCount_def)
qed

lemma issueCount_le: "issueCount issues p s \<le> length issues"
  by (simp add: issueCount_def)

lemma counts_exact:
  assumes "length issues < 2 ^ 53"
  shows "fold countIssue issues (\<lambda>p s. 0) p s = real (issueCount issues p s)"
  using countIssue_exact[of "\<lambda>p s. 0" issues p s] assms by simp

lemma penalty_exact:
  assumes "length issues < 2 ^ 32"
  shows "calculatePenalty log10 (fold countIssue issues (\<lambda>p s. 0) p) n penalties =
         ddiv (real (weightedCount issues p)) (normalizationFactor log10 n)"
proof -
  let ?i = "issueCount issues p Info" and ?w = "issueCount issues p Warning"
    and ?c = "issueCount issues p Critical"
  have len: "length issues < 2 ^ 53"
    using assms by (rule less_trans) simp
  have b: "?i < 2 ^ 32" "?w < 2 ^ 32" "?c < 2 ^ 32"
    using assms issueCount_le[of issues p Info] issueCount_le[of issues p Warning]
      issueCount_le[of issues p Critical] by linarith+
  have m1: "dmul (real ?i) 1 = real (1 * ?i)"
    using dmul_nat[of ?i 1] b(1) by simp
  have m2: "dmul (real ?w) 3 = real (3 * ?w)"
    using dmul_nat[of ?w 3] b(2) by (simp add: mult.commute)
  have m3: "dmul (real ?c) 10 = real (10 * ?c)"
    using dmul_nat[of ?c 10] b(3) by (simp add: mult.commute)
  have a1: "dadd (real (1 * ?i)) (real (3 * ?w)) = real (1 * ?i + 3 * ?w)"
    using b(1,2) by (intro dadd_nat) simp
  have a2: "dadd (real (1 * ?i + 3 * ?w)) (real (10 * ?c)) = real (1 * ?i + 3 * ?w + 10 * ?c)"
    using b by (intro dadd_nat) simp
  show ?thesis
    unfolding calculatePenalty_def counts_exact[OF len] penalties_def severity.case m1 m2 m3 a1 a2
      weightedCount_def ..
qed

lemma counts_nonneg:
  "(\<And>p s. 0 \<le> c p s) \<Longrightarrow> 0 \<le> fold countIssue issues c p s"
proof (induction issues arbitrary: c)
  case Nil
  then show ?case by simp
next
  case (Cons i issues)
  have "0 \<le> countIssue i c p s" for p s
    using Cons.prems roundToDouble_nonneg[of "c (si_principle i) (si_severity i) + 1"]
    by (simp add: countIssue_def dadd_def add_nonneg_nonneg)
  from Cons.IH[of "countIssue i c", OF this] show ?case by simp
qed

lemma normalizationFactor_ge1: "1 \<le> normalizationFactor log10 n"
  by (simp add: normalizationFactor_def)

lemma penalty_nonneg:
  assumes "\<And>s. 0 \<le> counts s"
  shows "0 \<le> calculatePenalty log10 counts n penalties"
proof -
  have p: "0 \<le> penalties s" for s by (cases s) (simp_all add: penalties_def)
  have m: "0 \<le> dmul (counts s) (penalties s)" for s
    unfolding dmul_def using assms[of s] p[of s] by (intro roundToDouble_nonneg mult_nonneg_nonneg)
  have "0 \<le> dadd (dadd (dmul (counts Info) (penalties Info))
                      (dmul (counts Warning) (penalties Warning)))
                (dmul (counts Critical) (penalties Critical))"
    unfolding dadd_def using m by (intro roundToDouble_nonneg add_nonneg_nonneg)
  moreover have "0 < normalizationFactor log10 n"
    using normalizationFactor_ge1[of log10 n] by linarith
  ultimately show ?thesis
    unfolding calculatePenalty_def ddiv_def by (intro roundToDouble_nonneg divide_nonneg_pos)
qed

lemma score_range:
  assumes "0 \<le> pen"
  shows "0 \<le> max 0 (dsub 100 pen) \<and> max 0 (dsub 100 pen) \<le> 100"
proof (cases "100 - pen \<le> 0")
  case True
  then have "roundToDouble (100 - pen) \<le> 0" by (rule roundToDouble_nonpos)
  then show ?thesis by (simp add: dsub_def)
next
  case False
  then have "0 < 100 - pen" by simp
  moreover have "100 - pen \<le> real 100" using assms by simp
  ultimately have "roundToDouble (100 - pen) \<le> real 100"
    by (rule roundToDouble_le_nat) simp
  then show ?thesis by (simp add: dsub_def)
qed

lemma dadd_range:
  assumes "0 \<le> a" "a \<le> real A" "0 \<le> b" "b \<le> real B" "A + B < 2 ^ 53"
  shows "0 \<le> dadd a b \<and> dadd a b \<le> real (A + B)"
proof (cases "a + b = 0")
  case True
  then show ?thesis by (simp add: dadd_def)
next
  case False
  with assms(1,3) have "0 < a + b" by linarith
  moreover have "a + b \<le> real (A + B)" using assms(2,4) by simp
  ultimately have "roundToDouble (a + b) \<le> real (A + B)"
    using assms(5) by (rule roundToDouble_le_nat)
  moreover have "0 \<le> roundToDouble (a + b)"
    using assms(1,3) by (intro roundToDouble_nonneg) simp
  ultimately show ?thesis by (simp add: dadd_def)
qed

lemma overall_range:
  assumes "0 \<le> a \<and> a \<le> 100" "0 \<le> b \<and> b \<le> 100" "0 \<le> c \<and> c \<le> 100"
    "0 \<le> d \<and> d \<le> 100" "0 \<le> e \<and> e \<le> 100"
  shows "0 \<le> (of_int (round (ddiv (dadd (dadd (dadd (dadd a b) c) d) e) 5)) :: real) \<and>
         (of_int (round (ddiv (dadd (dadd (dadd (dadd a b) c) d) e) 5)) :: real) \<le> 100"
proof -
  have 1: "0 \<le> dadd a b \<and> dadd a b \<le> real (100 + 100)"
    using assms(1,2) by (intro dadd_range) simp_all
  have 2: "0 \<le> dadd (dadd a b) c \<and> dadd (dadd a b) c \<le> real ((100 + 100) + 100)"
    using 1 assms(3) by (intro dadd_range) simp_all
  have 3: "0 \<le> dadd (dadd (dadd a b) c) d \<and> dadd (dadd (dadd a b) c) d \<le> real (((100 + 100) + 100) + 100)"
    using 2 assms(4) by (intro dadd_range) simp_all
  have 4: "0 \<le> dadd (dadd (dadd (dadd a b) c) d) e \<and>
           dadd (dadd (dadd (dadd a b) c) d) e \<le> real ((((100 + 100) + 100) + 100) + 100)"
    using 3 assms(5) by (intro dadd_range) simp_all
  let ?s = "dadd (dadd (dadd (dadd a b) c) d) e"
  have s: "0 \<le> ?s / 5" "?s / 5 \<le> real 100" using 4 by simp_all
  have lo: "0 \<le> ddiv ?s 5" unfolding ddiv_def using s(1) by (rule roundToDouble_nonneg)
  have hi: "ddiv ?s 5 \<le> real 100"
  proof (cases "?s / 5 = 0")
    case True
    then show ?thesis by (simp add: ddiv_def)
  next
    case False
    with s(1) have "0 < ?s / 5" by linarith
    then show ?thesis unfolding ddiv_def using s(2) by (rule roundToDouble_le_nat) simp
  qed
  have "round (0::real) \<le> round (ddiv ?s 5)" using lo by (rule round_mono)
  moreover have "round (ddiv ?s 5) \<le> round (real 100)" using hi by (rule round_mono)
  ultimately have "0 \<le> round (ddiv ?s 5)" "round (ddiv ?s 5) \<le> 100" by simp_all
  then show ?thesis by simp
qed

lemma roundToDouble_eval:
  assumes "2 powi e \<le> \<bar>x\<bar>" "\<bar>x\<bar> < 2 powi (e + 1)"
  shows "roundToDouble x = of_int (roundEven (x / 2 powi (e - 52))) * 2 powi (e - 52)"
proof -
  have "0 < (2::real) powi e" by simp
  with assms(1) have "0 < \<bar>x\<bar>" by linarith
  then have x0: "x \<noteq> 0" by simp
  then have "binade x = e" using assms by (simp add: binade_iff)
  with x0 show ?thesis by (simp add: roundToDouble_def)
qed

lemma log10_million: "log 10 (1000000::real) = 6"
proof -
  have "(1000000::real) = 10 ^ 6" by simp
  then show ?thesis by (simp only: log_pow_cancel)
qed

lemma sample_factor: "normalizationFactor sampleLog10 1000000 = 6"
  using roundToDouble_numeral[of "num.Bit0 (num.Bit1 num.One)"]
  by (simp add: normalizationFactor_def sampleLog10_def log10_million)

lemma sample_double_1: "roundToDouble (1 / 6) = 6004799503160661 / 36028797018963968"
  using roundToDouble_eval[of "-3" "1 / 6"] by (simp add: roundEven_def Let_def)

lemma sample_double_2: "roundToDouble (3596874902393236139 / 36028797018963968) = 7025146293736789 / 70368744177664"
  using roundToDouble_eval[of 6 "3596874902393236139 / 36028797018963968"] by (simp add: roundEven_def Let_def)

lemma sample_double_3: "roundToDouble (13 / 6) = 4878899596318037 / 2251799813685248"
  using roundToDouble_eval[of 1 "13 / 6"] by (simp add: roundEven_def Let_def)

lemma sample_double_4: "roundToDouble (220301081772206763 / 2251799813685248) = 6884408805381461 / 70368744177664"
  using roundToDouble_eval[of 6 "220301081772206763 / 2251799813685248"] by (simp add: roundEven_def Let_def)

lemma sample_double_5: "roundToDouble (21098895129269589 / 70368744177664) = 5274723782317397 / 17592186044416"
  using roundToDouble_eval[of 8 "21098895129269589 / 70368744177664"] by (simp add: roundEven_def Let_def)

lemma sample_double_6: "roundToDouble (28124041423006377 / 70368744177664) = 3515505177875797 / 8796093022208"
  using roundToDouble_eval[of 8 "28124041423006377 / 70368744177664"] by (simp add: roundEven_def Let_def)

lemma sample_double_7: "roundToDouble (35008450228387837 / 70368744177664) = 8752112557096959 / 17592186044416"
  using roundToDouble_eval[of 8 "35008450228387837 / 70368744177664"] by (simp add: roundEven_def Let_def)

lemma sample_double_8: "roundToDouble (8752112557096959 / 87960930222080) = 7001690045677567 / 70368744177664"
  using roundToDouble_eval[of 6 "8752112557096959 / 87960930222080"] by (simp add: roundEven_def Let_def)

lemma sample_weights:
  "weightedCount sampleIssues SRP = 0" "weightedCount sampleIssues OCP = 0"
  "weightedCount sampleIssues LSP = 1" "weightedCount sampleIssues ISP = 1"
  "weightedCount sampleIssues DIP = 13"
  "weightedCount [] p = 0"
  by (simp_all add: weightedCount_def issueCount_def sampleIssues_def issueOf_def)

lemma roundToDouble_100 [simp]: "roundToDouble 100 = 100"
  by (rule roundToDouble_numeral) simp

lemma sample_rounded:
  "roundedScore sampleLog10 sampleIssues 1000000 SRP = 100"
  "roundedScore sampleLog10 sampleIssues 1000000 OCP = 100"
  "roundedScore sampleLog10 sampleIssues 1000000 LSP = 7025146293736789 / 70368744177664"
  "roundedScore sampleLog10 sampleIssues 1000000 ISP = 7025146293736789 / 70368744177664"
  "roundedScore sampleLog10 sampleIssues 1000000 DIP = 6884408805381461 / 70368744177664"
  by (simp_all add: roundedScore_def sample_factor sample_weights ddiv_def dsub_def sample_double_1 sample_double_2 sample_double_3 sample_double_4)

lemma sample_exact:
  "exactScore sampleIssues 1000000 SRP = 100" "exactScore sampleIssues 1000000 OCP = 100"
  "exactScore sampleIssues 1000000 LSP = 599 / 6" "exactScore sampleIssues 1000000 ISP = 599 / 6"
  "exactScore sampleIssues 1000000 DIP = 587 / 6"
  by (simp_all add: exactScore_def sample_weights log10_million)

lemma scores_unfold:
  assumes "length issues < 2 ^ 32"
  shows "calculateScores log10 issues n =
     \<lparr>srp = roundedScore log10 issues n SRP, ocp = roundedScore log10 issues n OCP,
      lsp = roundedScore log10 issues n LSP, isp = roundedScore log10 issues n ISP,
      dip = roundedScore log10 issues n DIP,
      overall = of_int (round (ddiv (dadd (dadd (dadd (dadd
         (roundedScore log10 issues n SRP) (roundedScore log10 issues n OCP))
         (roundedScore log10 issues n LSP)) (roundedScore log10 issues n ISP))
         (roundedScore log10 issues n DIP)) 5))\<rparr>"
  by (simp add: calculateScores_def Let_def penalty_exact[OF assms] roundedScore_def baseScore_def)

lemma sample_mean:
  "ddiv (dadd (dadd (dadd (dadd 100 100) (7025146293736789 / 70368744177664))
       (7025146293736789 / 70368744177664)) (6884408805381461 / 70368744177664)) 5 =
   7001690045677567 / 70368744177664"
proof -
  have 1: "dadd 100 100 = 200"
    using roundToDouble_numeral[of "num.Bit0 (num.Bit0 (num.Bit0 (num.Bit1 (num.Bit0 (num.Bit0 (num.Bit1 num.One))))))"]
    by (simp add: dadd_def)
  have 2: "dadd 200 (7025146293736789 / 70368744177664) = 5274723782317397 / 17592186044416"
    by (simp add: dadd_def sample_double_5)
  have 3: "dadd (5274723782317397 / 17592186044416) (7025146293736789 / 70368744177664) =
           3515505177875797 / 8796093022208"
    by (simp add: dadd_def sample_double_6)
  have 4: "dadd (3515505177875797 / 8796093022208) (6884408805381461 / 70368744177664) =
           8752112557096959 / 17592186044416"
    by (simp add: dadd_def sample_double_7)
  have 5: "ddiv (8752112557096959 / 17592186044416) 5 = 7001690045677567 / 70368744177664"
    by (simp add: ddiv_def sample_double_8)
  show ?thesis unfolding 1 2 3 4 5 ..
qed

lemma sample_scores:
  "calculateScores sampleLog10 sampleIssues 1000000 =
     \<lparr>srp = 100, ocp = 100, lsp = 7025146293736789 / 70368744177664,
      isp = 7025146293736789 / 70368744177664, dip = 6884408805381461 / 70368744177664,
      overall = 99\<rparr>"
proof -
  have len: "length sampleIssues < 2 ^ 32" by (simp add: sampleIssues_def)
  have r: "round (7001690045677567 / 70368744177664 :: real) = 99"
    by (simp add: round_def)
  show ?thesis
    unfolding scores_unfold[OF len] sample_rounded sample_mean r by simp
qed

lemma empty_scores:
  "calculateScores log10 [] n =
     \<lparr>srp = 100, ocp = 100, lsp = 100, isp = 100, dip = 100, overall = 100\<rparr>"
proof -
  have len: "length ([] :: SolidIssue list) < 2 ^ 32" by simp
  have r: "roundedScore log10 [] n p = 100" for p
    by (simp add: roundedScore_def sample_weights ddiv_def dsub_def)
  have m: "ddiv (dadd (dadd (dadd (dadd 100 100) 100) 100) 100) 5 = 100"
    by (simp add: dadd_def ddiv_def roundToDouble_numeral)
  show ?thesis unfolding scores_unfold[OF len] r m by simp
qed

lemma principle_ranges:
  "0 \<le> srp (calculateScores log10 issues n) \<and> srp (calculateScores log10 issues n) \<le> 100"
  "0 \<le> ocp (calculateScores log10 issues n) \<and> ocp (calculateScores log10 issues n) \<le> 100"
  "0 \<le> lsp (calculateScores log10 issues n) \<and> lsp (calculateScores log10 issues n) \<le> 100"
  "0 \<le> isp (calculateScores log10 issues n) \<and> isp (calculateScores log10 issues n) \<le> 100"
  "0 \<le> dip (calculateScores log10 issues n) \<and> dip (calculateScores log10 issues n) \<le> 100"
proof -
  have c: "0 \<le> fold countIssue issues (\<lambda>p s. 0) p s" for p s
    by (rule counts_nonneg) simp
  have "0 \<le> calculatePenalty log10 (fold countIssue issues (\<lambda>p s. 0) p) n penalties" for p
    by (rule penalty_nonneg) (rule c)
  then have "0 \<le> max 0 (dsub 100 (calculatePenalty log10 (fold countIssue issues (\<lambda>p s. 0) p) n penalties)) \<and>
      max 0 (dsub 100 (calculatePenalty log10 (fold countIssue issues (\<lambda>p s. 0) p) n penalties)) \<le> 100" for p
    by (rule score_range)
  then show
    "0 \<le> srp (calculateScores log10 issues n) \<and> srp (calculateScores log10 issues n) \<le> 100"
    "0 \<le> ocp (calculateScores log10 issues n) \<and> ocp (calculateScores log10 issues n) \<le> 100"
    "0 \<le> lsp (calculateScores log10 issues n) \<and> lsp (calculateScores log10 issues n) \<le> 100"
    "0 \<le> isp (calculateScores log10 issues n) \<and> isp (calculateScores log10 issues n) \<le> 100"
    "0 \<le> dip (calculateScores log10 issues n) \<and> dip (calculateScores log10 issues n) \<le> 100"
    by (simp_all add: calculateScores_def Let_def baseScore_def)
qed

lemma overall_eq:
  "overall (calculateScores log10 issues n) =
     of_int (round (ddiv (dadd (dadd (dadd (dadd
        (srp (calculateScores log10 issues n)) (ocp (calculateScores log10 issues n)))
        (lsp (calculateScores log10 issues n))) (isp (calculateScores log10 issues n)))
        (dip (calculateScores log10 issues n))) 5))"
  by (simp add: calculateScores_def Let_def)

text \<open>
  C2, as stated, fails: the arithmetic of the scores is that of doubles. For
  10^6 files with one info issue for LSP, one for ISP and a critical and a warning issue for
  DIP, the stated formula gives the scores 100, 100, 599/6, 599/6 and 587/6, whose mean
  99.5 rounds to 100, while the computed scores are doubles just below these and the
  computed overall score is 99.
\<close>

theorem scores_exact_formula_counterexample:
  "sampleLog10 1000000 = 6 \<and>
   overall (calculateScores sampleLog10 sampleIssues 1000000) = 99 \<and>
   of_int (round ((exactScore sampleIssues 1000000 SRP + exactScore sampleIssues 1000000 OCP +
      exactScore sampleIssues 1000000 LSP + exactScore sampleIssues 1000000 ISP +
      exactScore sampleIssues 1000000 DIP) / 5)) = (100 :: real) \<and>
   lsp (calculateScores sampleLog10 sampleIssues 1000000) = 7025146293736789 / 70368744177664 \<and>
   exactScore sampleIssues 1000000 LSP = 599 / 6"
proof -
  have "sampleLog10 1000000 = 6"
    using roundToDouble_numeral[of "num.Bit0 (num.Bit1 num.One)"]
    by (simp add: sampleLog10_def log10_million)
  moreover have "round ((100 + 100 + 599 / 6 + 599 / 6 + 587 / 6) / 5 :: real) = 100"
    by (simp add: round_def)
  ultimately show ?thesis by (simp add: sample_scores sample_exact)
qed

text \<open>
  C2, amended: for every list of issues and every file count, calculateScores computes each
  of the five principle scores as 100 minus (1 * infoCount + 3 * warningCount +
  10 * criticalCount) divided by max(1, log10(filesAnalyzed)), floored at 0, and the overall
  score as the mean of the five principle scores rounded to the nearest integer, where the
  division, the subtraction, each addition of the mean and its division by 5 are rounded to
  the nearest double (the counts are exact for every array, which has fewer than 2^32
  elements); every returned score lies in [0,100], and an empty issue list yields all five
  scores equal to 100 and overall equal to 100.
\<close>

theorem scores_formula_and_range:
  "(length issues < 2 ^ 32 \<longrightarrow>
      srp (calculateScores log10 issues n) = roundedScore log10 issues n SRP \<and>
      ocp (calculateScores log10 issues n) = roundedScore log10 issues n OCP \<and>
      lsp (calculateScores log10 issues n) = roundedScore log10 issues n LSP \<and>
      isp (calculateScores log10 issues n) = roundedScore log10 issues n ISP \<and>
      dip (calculateScores log10 issues n) = roundedScore log10 issues n DIP) \<and>
   overall (calculateScores log10 issues n) =
     of_int (round (ddiv (dadd (dadd (dadd (dadd
        (srp (calculateScores log10 issues n)) (ocp (calculateScores log10 issues n)))
        (lsp (calculateScores log10 issues n))) (isp (calculateScores log10 issues n)))
        (dip (calculateScores log10 issues n))) 5)) \<and>
   (0 \<le> srp (calculateScores log10 issues n) \<and> srp (calculateScores log10 issues n) \<le> 100) \<and>
   (0 \<le> ocp (calculateScores log10 issues n) \<and> ocp (calculateScores log10 issues n) \<le> 100) \<and>
   (0 \<le> lsp (calculateScores log10 issues n) \<and> lsp (calculateScores log10 issues n) \<le> 100) \<and>
   (0 \<le> isp (calculateScores log10 issues n) \<and> isp (calculateScores log10 issues n) \<le> 100) \<and>
   (0 \<le> dip (calculateScores log10 issues n) \<and> dip (calculateScores log10 issues n) \<le> 100) \<and>
   (0 \<le> overall (calculateScores log10 issues n) \<and> overall (calculateScores log10 issues n) \<le> 100) \<and>
   (issues = [] \<longrightarrow>
      calculateScores log10 issues n =
        \<lparr>srp = 100, ocp = 100, lsp = 100, isp = 100, dip = 100, overall = 100\<rparr>) \<and>
   (0 < n \<longrightarrow> normalizationFactor log10 n = max 1 (log10 n))"
proof -
  let ?sc = "calculateScores log10 issues n"
  have f: "length issues < 2 ^ 32 \<longrightarrow>
      srp ?sc = roundedScore log10 issues n SRP \<and> ocp ?sc = roundedScore log10 issues n OCP \<and>
      lsp ?sc = roundedScore log10 issues n LSP \<and> isp ?sc = roundedScore log10 issues n ISP \<and>
      dip ?sc = roundedScore log10 issues n DIP"
  proof
    assume "length issues < 2 ^ 32"
    from scores_unfold[OF this, of log10 n] show "srp ?sc = roundedScore log10 issues n SRP \<and>
      ocp ?sc = roundedScore log10 issues n OCP \<and> lsp ?sc = roundedScore log10 issues n LSP \<and>
      isp ?sc = roundedScore log10 issues n ISP \<and> dip ?sc = roundedScore log10 issues n DIP"
      by simp
  qed
  note r = principle_ranges[of log10 issues n]
  have o: "0 \<le> overall ?sc \<and> overall ?sc \<le> 100"
    unfolding overall_eq[of log10 issues n] using r by (rule overall_range)
  have e: "issues = [] \<longrightarrow>
      ?sc = \<lparr>srp = 100, ocp = 100, lsp = 100, isp = 100, dip = 100, overall = 100\<rparr>"
    using empty_scores[of log10 n] by simp
  have nf: "0 < n \<longrightarrow> normalizationFactor log10 n = max 1 (log10 n)"
    by (simp add: normalizationFactor_def)
  from f overall_eq[of log10 issues n] r o e nf show ?thesis by blast
qed

text \<open>C2, witness: the four issues of the example in 10^6 files, and no issue.\<close>

theorem scores_witness:
  "length sampleIssues < 2 ^ 32 \<and>
   lsp (calculateScores sampleLog10 sampleIssues 1000000) = 7025146293736789 / 70368744177664 \<and>
   dip (calculateScores sampleLog10 sampleIssues 1000000) = 6884408805381461 / 70368744177664 \<and>
   overall (calculateScores sampleLog10 sampleIssues 1000000) = 99 \<and>
   calculateScores sampleLog10 [] 1000000 =
     \<lparr>srp = 100, ocp = 100, lsp = 100, isp = 100, dip = 100, overall = 100\<rparr> \<and>
   normalizationFactor sampleLog10 1000000 = 6"
proof -
  have len: "length sampleIssues < 2 ^ 32" by (simp add: sampleIssues_def)
  note t = scores_formula_and_range[where issues = sampleIssues and ?log10.0 = sampleLog10 and n = 1000000]
  from t len have s: "srp (calculateScores sampleLog10 sampleIssues 1000000) = 100"
    "ocp (calculateScores sampleLog10 sampleIssues 1000000) = 100"
    "lsp (calculateScores sampleLog10 sampleIssues 1000000) = 7025146293736789 / 70368744177664"
    "isp (calculateScores sampleLog10 sampleIssues 1000000) = 7025146293736789 / 70368744177664"
    "dip (calculateScores sampleLog10 sampleIssues 1000000) = 6884408805381461 / 70368744177664"
    unfolding sample_rounded by blast+
  have r: "round (7001690045677567 / 70368744177664 :: real) = 99"
    by (simp add: round_def)
  from t have "overall (calculateScores sampleLog10 sampleIssues 1000000) =
     of_int (round (ddiv (dadd (dadd (dadd (dadd
        (srp (calculateScores sampleLog10 sampleIssues 1000000))
        (ocp (calculateScores sampleLog10 sampleIssues 1000000)))
        (lsp (calculateScores sampleLog10 sampleIssues 1000000)))
        (isp (calculateScores sampleLog10 sampleIssues 1000000)))
        (dip (calculateScores sampleLog10 sampleIssues 1000000))) 5))" by blast
  then have o: "overall (calculateScores sampleLog10 sampleIssues 1000000) = 99"
    unfolding s sample_mean r by simp
  have e: "calculateScores sampleLog10 [] 1000000 =
     \<lparr>srp = 100, ocp = 100, lsp = 100, isp = 100, dip = 100, overall = 100\<rparr>"
    using scores_formula_and_range[where issues = "[]" and ?log10.0 = sampleLog10 and n = 1000000]
    by blast
  from len s(3,5) o e sample_factor show ?thesis by (intro conjI)
qed

section \<open>Properties of the import resolution\<close>

lemma fold_filter_skip:
  "(\<And>x s. \<not> Q x \<Longrightarrow> f x s = s) \<Longrightarrow> fold f (filter Q xs) s = fold f xs s"
  by (induction xs arbitrary: s) auto

text \<open>
  C9: the import resolution resolves the specifier against the directory of the importing
  file; when the resolved path has no extension it returns the first candidate of the
  sequence (the resolved path with each of \<open>.ts\<close>, \<open>.tsx\<close>, \<open>.js\<close>, \<open>.jsx\<close> appended, then
  the index files), which is the resolved path with \<open>.ts\<close> appended, and it consults only the
  path functions, no file system; a resolved path with an extension is returned as it is; an
  import whose specifier starts with neither \<open>.\<close> nor \<open>/\<close> adds nothing to the imports of
  the file.
\<close>

theorem resolveImportPath_first_candidate:
  "(path_extname P (path_resolve P (path_dirname P sourcePath) importPath) = [] \<longrightarrow>
      resolveImportPath P sourcePath importPath =
        Some (hd (resolutionCandidates P (path_resolve P (path_dirname P sourcePath) importPath))) \<and>
      resolveImportPath P sourcePath importPath =
        Some (path_resolve P (path_dirname P sourcePath) importPath @ ''.ts'')) \<and>
   (path_extname P (path_resolve P (path_dirname P sourcePath) importPath) \<noteq> [] \<longrightarrow>
      resolveImportPath P sourcePath importPath =
        Some (path_resolve P (path_dirname P sourcePath) importPath)) \<and>
   (\<not> isLocalImport (imp_source importDecl) \<longrightarrow>
      addImportPath P file importDecl importPaths = importPaths) \<and>
   collectImportPaths P file imports =
     collectImportPaths P file (filter (\<lambda>d. isLocalImport (imp_source d)) imports)"
proof -
  have skip: "\<And>d acc. \<not> isLocalImport (imp_source d) \<Longrightarrow> addImportPath P file d acc = acc"
    by (simp add: addImportPath_def isLocalImport_def Let_def)
  have "fold (addImportPath P file) (filter (\<lambda>d. isLocalImport (imp_source d)) imports) [] =
        fold (addImportPath P file) imports []"
    by (rule fold_filter_skip) (simp add: skip)
  then show ?thesis
    by (simp add: resolveImportPath_def resolutionCandidates_def extensions_def
        firstIteration_def Let_def collectImportPaths_def skip)
qed

lemma sample_resolve:
  "path_resolve samplePath (path_dirname samplePath ''/src/pages/index.tsx'') ''./Button'' =
     ''/src/pages/Button''"
  "path_resolve samplePath (path_dirname samplePath ''/src/pages/index.tsx'') ''./theme.json'' =
     ''/src/pages/theme.json''"
  by (simp_all add: samplePath_def)

lemma sample_extnames:
  "path_extname samplePath ''/src/pages/Button'' = []"
  "path_extname samplePath ''/src/pages/theme.json'' = ''.json''"
  by (simp_all add: samplePath_def sample_extname_def sample_basename_def)

text \<open>C9, witness: a specifier without and one with an extension, and a package import.\<close>

theorem resolveImportPath_witness:
  "resolveImportPath samplePath ''/src/pages/index.tsx'' ''./Button'' = Some ''/src/pages/Button.ts'' \<and>
   resolveImportPath samplePath ''/src/pages/index.tsx'' ''./theme.json'' = Some ''/src/pages/theme.json'' \<and>
   \<not> isLocalImport (imp_source (ImportDecl ''react'' [])) \<and>
   addImportPath samplePath sampleFile (ImportDecl ''react'' []) [] = []"
  using resolveImportPath_first_candidate[of samplePath "''/src/pages/index.tsx''" "''./Button''"
      "ImportDecl ''react'' []" sampleFile "[]" "[]"]
    resolveImportPath_first_candidate[of samplePath "''/src/pages/index.tsx''" "''./theme.json''"]
  by (simp add: sample_resolve sample_extnames isLocalImport_def resolutionCandidates_def)

section \<open>Properties of the component graph and of the pipeline\<close>

lemma fold_invariant:
  "(\<And>x s. x \<in> set xs \<Longrightarrow> I s \<Longrightarrow> I (f x s)) \<Longrightarrow> I s \<Longrightarrow> I (fold f xs s)"
  by (induction xs arbitrary: s) auto

lemma relate_noSelfEdge: "noSelfEdge s \<Longrightarrow> noSelfEdge (relate i j s)"
  by (auto simp: noSelfEdge_def relate_def Let_def)

lemma relateImport_noSelfEdge: "noSelfEdge s \<Longrightarrow> noSelfEdge (relateImport srcs name s)"
  unfolding relateImport_def Let_def
  by (intro fold_invariant[where I = noSelfEdge] relate_noSelfEdge)

lemma relateFile_noSelfEdge: "noSelfEdge s \<Longrightarrow> noSelfEdge (relateFile entry s)"
  unfolding relateFile_def Let_def
  by (auto intro: fold_invariant[where I = noSelfEdge] relateImport_noSelfEdge)

text \<open>
  C6: in every component graph that the builder produces, no relationship has equal source
  and target identifiers.
\<close>

theorem no_self_relationships:
  "\<forall>r \<in> set (cg_relationships (analyzeComponents parse fileData)). cr_source r \<noteq> cr_target r"
proof -
  have "noSelfEdge (fold relateFile entries \<lparr>rp_nodes = ns, relationships = []\<rparr>)"
    for entries ns
  proof (rule fold_invariant[where I = noSelfEdge])
    show "noSelfEdge \<lparr>rp_nodes = ns, relationships = []\<rparr>"
      by (simp add: noSelfEdge_def)
  qed (rule relateFile_noSelfEdge)
  then show ?thesis
    by (simp add: analyzeComponents_def Let_def noSelfEdge_def)
qed

lemma sample_relationships:
  "cg_relationships (analyzeComponents sampleParser sampleFiles) =
     [\<lparr>cr_id = ''/src/App.tsx:App->/src/Button.tsx:Button'',
       cr_source = ''/src/App.tsx:App'', cr_target = ''/src/Button.tsx:Button''\<rparr>]"
  by code_simp


text \<open>C6, witness: the example project, whose graph has one relationship.\<close>

theorem no_self_relationships_witness:
  "cg_relationships (analyzeComponents sampleParser sampleFiles) \<noteq> [] \<and>
   cr_source (hd (cg_relationships (analyzeComponents sampleParser sampleFiles))) \<noteq>
   cr_target (hd (cg_relationships (analyzeComponents sampleParser sampleFiles)))"
  using no_self_relationships[of sampleParser sampleFiles] by (simp add: sample_relationships)

lemma update_preserves:
  assumes "\<forall>n \<in> set ns. Q n" and "\<And>n. Q n \<Longrightarrow> Q (g n)"
  shows "\<forall>n \<in> set (ns[i := g (ns ! i)]). Q n"
proof (cases "i < length ns")
  case True
  then have "Q (g (ns ! i))" using assms by simp
  moreover have "set (ns[i := g (ns ! i)]) \<subseteq> insert (g (ns ! i)) (set ns)"
    by (rule set_update_subset_insert)
  ultimately show ?thesis using assms(1) by auto
next
  case False
  then show ?thesis using assms(1) by (simp add: list_update_beyond)
qed

lemma relate_contentDerived: "nodesContentDerived s \<Longrightarrow> nodesContentDerived (relate i j s)"
proof -
  assume a: "nodesContentDerived s"
  let ?g1 = "\<lambda>n. n\<lparr>cn_imports := cn_imports n + 1\<rparr>"
  let ?g2 = "\<lambda>n. n\<lparr>cn_exports := cn_exports n + 1\<rparr>"
  have 1: "\<forall>n \<in> set ((rp_nodes s)[i := ?g1 (rp_nodes s ! i)]). contentDerivedId n"
    using a by (intro update_preserves[where g = ?g1 and ns = "rp_nodes s"])
      (auto simp: nodesContentDerived_def contentDerivedId_def)
  have 2: "\<forall>n \<in> set (((rp_nodes s)[i := ?g1 (rp_nodes s ! i)])
              [j := ?g2 (((rp_nodes s)[i := ?g1 (rp_nodes s ! i)]) ! j)]). contentDerivedId n"
    using 1 by (intro update_preserves[where g = ?g2
        and ns = "(rp_nodes s)[i := ?g1 (rp_nodes s ! i)]"]) (auto simp: contentDerivedId_def)
  show ?thesis
    using a 2 by (simp add: relate_def Let_def nodesContentDerived_def)
qed

lemma set_map_filter: "set (List.map_filter f xs) = {y. \<exists>x \<in> set xs. f x = Some y}"
  by (induction xs) (auto simp: map_filter_simps split: option.splits)

lemma relateImport_contentDerived:
  "nodesContentDerived s \<Longrightarrow> nodesContentDerived (relateImport srcs name s)"
  unfolding relateImport_def Let_def
  by (intro fold_invariant[where I = nodesContentDerived] relate_contentDerived)

lemma relateFile_contentDerived:
  "nodesContentDerived s \<Longrightarrow> nodesContentDerived (relateFile entry s)"
  unfolding relateFile_def Let_def
  by (auto intro: fold_invariant[where I = nodesContentDerived] relateImport_contentDerived)

lemma componentNodeOf_contentDerived:
  "componentNodeOf file c = Some n \<Longrightarrow> contentDerivedId n"
  by (auto simp: componentNodeOf_def contentDerivedId_def Let_def split: if_splits)

lemma componentFile_contentDerived:
  "\<forall>n \<in> set (componentNodes s). contentDerivedId n \<Longrightarrow>
   \<forall>n \<in> set (componentNodes (componentFile parse file s)). contentDerivedId n"
  by (auto simp: componentFile_def Let_def set_map_filter componentNodeOf_contentDerived
      split: option.splits)

lemma placeNodes_contentDerived:
  "\<forall>n \<in> set ns. contentDerivedId n \<Longrightarrow> \<forall>n \<in> set (placeNodes ns). contentDerivedId n"
  by (auto simp: placeNodes_def Let_def contentDerivedId_def set_zip)

lemma components_contentDerived:
  "\<forall>n \<in> set (cg_components (analyzeComponents parse fileData)). contentDerivedId n"
proof -
  let ?files = "filter (\<lambda>file.
           fn_extension file = Some ''.tsx'' \<or> fn_extension file = Some ''.jsx'' \<or>
           fn_extension file = Some ''.js'' \<or> fn_extension file = Some ''.ts'') fileData"
  let ?first = "fold (componentFile parse) ?files \<lparr>componentNodes = [], importMap = []\<rparr>"
  have 1: "\<forall>n \<in> set (componentNodes ?first). contentDerivedId n"
    by (rule fold_invariant[where I = "\<lambda>s. \<forall>n \<in> set (componentNodes s). contentDerivedId n"])
       (simp_all add: componentFile_contentDerived)
  have 2: "nodesContentDerived (fold relateFile (importMap ?first)
             \<lparr>rp_nodes = componentNodes ?first, relationships = []\<rparr>)"
  proof (rule fold_invariant[where I = nodesContentDerived])
    show "nodesContentDerived \<lparr>rp_nodes = componentNodes ?first, relationships = []\<rparr>"
      using 1 by (simp add: nodesContentDerived_def)
  qed (rule relateFile_contentDerived)
  show ?thesis
    using 2 by (simp add: analyzeComponents_def Let_def nodesContentDerived_def placeNodes_contentDerived)
qed

lemma dependencies_ids:
  "\<forall>d \<in> set (dg_dependencies (analyzeDependencies P parse fileData)). dn_id d = dn_filePath d"
proof -
  have "\<forall>d \<in> set (dependencyNodes (fold (dependencyFile P parse) files
           \<lparr>dependencyNodes = [], filePathToModuleName = [], dependencyMap = []\<rparr>)).
          dn_id d = dn_filePath d" for files
    by (rule fold_invariant[where I = "\<lambda>s. \<forall>d \<in> set (dependencyNodes s). dn_id d = dn_filePath d"])
       (auto simp: dependencyFile_def Let_def split: option.splits)
  then show ?thesis by (simp add: analyzeDependencies_def Let_def)
qed

section \<open>Properties of the source scanner\<close>

lemma lexCompare_Cons_le:
  "lexCompare (x # xs) (y # ys) \<le> 0 \<longleftrightarrow>
     (of_char x :: nat) < of_char y \<or> ((of_char x :: nat) = of_char y \<and> lexCompare xs ys \<le> 0)"
proof (cases "(of_char x :: nat) < of_char y")
  case True
  then show ?thesis by simp
next
  case False
  show ?thesis
  proof (cases "(of_char y :: nat) < of_char x")
    case True
    then have "(of_char x :: nat) \<noteq> of_char y" by linarith
    with True False show ?thesis by simp
  next
    case f: False
    with False have "(of_char x :: nat) = of_char y" by linarith
    with False f show ?thesis by simp
  qed
qed

lemma lexCompare_total: "lexCompare a b \<le> 0 \<or> lexCompare b a \<le> 0"
proof (induction a b rule: lexCompare.induct)
  case (4 x xs y ys)
  then show ?case unfolding lexCompare_Cons_le by linarith
qed simp_all

lemma lexCompare_trans: "lexCompare a b \<le> 0 \<Longrightarrow> lexCompare b c \<le> 0 \<Longrightarrow> lexCompare a c \<le> 0"
proof (induction a arbitrary: b c)
  case Nil
  then show ?case by (cases c) simp_all
next
  case (Cons x xs)
  from Cons.prems(1) obtain y ys where b: "b = y # ys" by (cases b) simp_all
  from Cons.prems(2) b obtain z zs where c: "c = z # zs" by (cases c) simp_all
  have xy: "(of_char x :: nat) < of_char y \<or> ((of_char x :: nat) = of_char y \<and> lexCompare xs ys \<le> 0)"
    using Cons.prems(1) unfolding b lexCompare_Cons_le .
  have yz: "(of_char y :: nat) < of_char z \<or> ((of_char y :: nat) = of_char z \<and> lexCompare ys zs \<le> 0)"
    using Cons.prems(2) unfolding b c lexCompare_Cons_le .
  show ?case
  proof (cases "(of_char x :: nat) < of_char z")
    case True
    then show ?thesis unfolding c lexCompare_Cons_le by blast
  next
    case False
    with xy yz have e: "(of_char x :: nat) = of_char y" "(of_char y :: nat) = of_char z"
      "lexCompare xs ys \<le> 0" "lexCompare ys zs \<le> 0" by linarith+
    from Cons.IH[OF e(3) e(4)] e(1,2) show ?thesis unfolding c lexCompare_Cons_le by simp
  qed
qed

lemma consistent_lexCompare: "consistentOrder lexCompare"
  unfolding consistentOrder_def using lexCompare_total lexCompare_trans by blast

lemma lexCompare_antisym: "lexCompare a b \<le> 0 \<Longrightarrow> lexCompare b a \<le> 0 \<Longrightarrow> a = b"
proof (induction a b rule: lexCompare.induct)
  case (4 x xs y ys)
  from "4.prems" have
    xy: "(of_char x :: nat) < of_char y \<or> ((of_char x :: nat) = of_char y \<and> lexCompare xs ys \<le> 0)"
    and yx: "(of_char y :: nat) < of_char x \<or> ((of_char y :: nat) = of_char x \<and> lexCompare ys xs \<le> 0)"
    unfolding lexCompare_Cons_le by blast+
  from xy yx have e: "(of_char x :: nat) = of_char y" "lexCompare xs ys \<le> 0" "lexCompare ys xs \<le> 0"
    by linarith+
  from e(1) have "x = y" by simp
  moreover from e(1) have "\<not> (of_char x :: nat) < of_char y" "\<not> (of_char y :: nat) < of_char x"
    by simp_all
  then have "xs = ys" using "4.IH" e(2,3) by blast
  ultimately show ?case by simp
qed simp_all

lemma lexCompare_refl: "lexCompare a a = 0"
  by (induction a) simp_all

lemma lexCompare_zero: "lexCompare a b = 0 \<longleftrightarrow> a = b"
proof
  assume "lexCompare a b = 0"
  then have "lexCompare a b \<le> 0" by simp
  moreover have "lexCompare b a \<le> 0"
    using \<open>lexCompare a b = 0\<close>
  proof (induction a b rule: lexCompare.induct)
    case (4 x xs y ys)
    show ?case
    proof (cases "(of_char x :: nat) < of_char y")
      case True
      with "4.prems" show ?thesis by simp
    next
      case False
      show ?thesis
      proof (cases "(of_char y :: nat) < of_char x")
        case True
        with False "4.prems" show ?thesis by simp
      next
        case f: False
        with False "4.prems" have "lexCompare xs ys = 0" by simp
        with "4.IH"[OF False f] have "lexCompare ys xs \<le> 0" by simp
        with False f show ?thesis by simp
      qed
    qed
  qed simp_all
  ultimately show "a = b" by (rule lexCompare_antisym)
next
  assume "a = b"
  then show "lexCompare a b = 0" by (simp add: lexCompare_refl)
qed

lemma sampleLocaleCompare_le:
  "sampleLocaleCompare a b \<le> 0 \<longleftrightarrow>
     (map asciiLower a \<noteq> map asciiLower b \<and> lexCompare (map asciiLower a) (map asciiLower b) \<le> 0) \<or>
     (map asciiLower a = map asciiLower b \<and> lexCompare (map caseMark a) (map caseMark b) \<le> 0)"
  by (simp add: sampleLocaleCompare_def Let_def lexCompare_zero lexCompare_refl)

lemma consistent_sampleLocaleCompare: "consistentOrder sampleLocaleCompare"
proof -
  have total: "sampleLocaleCompare a b \<le> 0 \<or> sampleLocaleCompare b a \<le> 0" for a b
    unfolding sampleLocaleCompare_le
    using lexCompare_total[of "map asciiLower a" "map asciiLower b"]
      lexCompare_total[of "map caseMark a" "map caseMark b"]
    by metis
  have trans: "sampleLocaleCompare a c \<le> 0"
    if ab: "sampleLocaleCompare a b \<le> 0" and bc: "sampleLocaleCompare b c \<le> 0" for a b c
  proof -
    let ?f = "map asciiLower" and ?g = "map caseMark"
    from ab have ab': "(?f a \<noteq> ?f b \<and> lexCompare (?f a) (?f b) \<le> 0) \<or>
        (?f a = ?f b \<and> lexCompare (?g a) (?g b) \<le> 0)" unfolding sampleLocaleCompare_le .
    from bc have bc': "(?f b \<noteq> ?f c \<and> lexCompare (?f b) (?f c) \<le> 0) \<or>
        (?f b = ?f c \<and> lexCompare (?g b) (?g c) \<le> 0)" unfolding sampleLocaleCompare_le .
    show ?thesis
    proof (cases "?f a = ?f b")
      case True
      show ?thesis
      proof (cases "?f b = ?f c")
        case t: True
        with True ab' bc' have "lexCompare (?g a) (?g c) \<le> 0" using lexCompare_trans by blast
        with True t show ?thesis unfolding sampleLocaleCompare_le by simp
      next
        case False
        with True bc' show ?thesis unfolding sampleLocaleCompare_le by simp
      qed
    next
      case False
      with ab' have l1: "lexCompare (?f a) (?f b) \<le> 0" by blast
      show ?thesis
      proof (cases "?f b = ?f c")
        case True
        with False l1 show ?thesis unfolding sampleLocaleCompare_le by simp
      next
        case f: False
        with bc' have l2: "lexCompare (?f b) (?f c) \<le> 0" by blast
        from l1 l2 have l3: "lexCompare (?f a) (?f c) \<le> 0" by (rule lexCompare_trans)
        have "?f a \<noteq> ?f c"
        proof
          assume "?f a = ?f c"
          with l2 have "lexCompare (?f b) (?f a) \<le> 0" by simp
          with l1 have "?f a = ?f b" by (rule lexCompare_antisym)
          with False show False by simp
        qed
        with l3 show ?thesis unfolding sampleLocaleCompare_le by simp
      qed
    qed
  qed
  show ?thesis unfolding consistentOrder_def using total trans by blast
qed

lemma set_insertBy: "set (insertBy cmp x xs) = insert x (set xs)"
  by (induction xs) auto

lemma set_sortBy: "set (sortBy cmp xs) = set xs"
  by (induction xs) (auto simp: sortBy_def set_insertBy)

lemma sorted_insertBy:
  assumes tot: "\<And>a b. cmp a b \<le> 0 \<or> cmp b a \<le> 0"
    and tr: "\<And>a b c. cmp a b \<le> 0 \<Longrightarrow> cmp b c \<le> 0 \<Longrightarrow> cmp a c \<le> 0"
  shows "sorted_wrt (\<lambda>a b. cmp a b \<le> 0) xs \<Longrightarrow> sorted_wrt (\<lambda>a b. cmp a b \<le> 0) (insertBy cmp x xs)"
proof (induction xs)
  case Nil
  then show ?case by simp
next
  case (Cons y ys)
  show ?case
  proof (cases "cmp x y \<le> 0")
    case True
    then have "\<forall>z \<in> set ys. cmp x z \<le> 0" using Cons.prems tr by auto
    with True Cons.prems show ?thesis by simp
  next
    case False
    then have "cmp y x \<le> 0" using tot by blast
    with False Cons show ?thesis by (auto simp: set_insertBy)
  qed
qed

lemma sorted_sortBy:
  assumes "\<And>a b. cmp a b \<le> 0 \<or> cmp b a \<le> 0"
    and "\<And>a b c. cmp a b \<le> 0 \<Longrightarrow> cmp b c \<le> 0 \<Longrightarrow> cmp a c \<le> 0"
  shows "sorted_wrt (\<lambda>a b. cmp a b \<le> 0) (sortBy cmp xs)"
proof (induction xs)
  case Nil
  then show ?case by (simp add: sortBy_def)
next
  case (Cons x xs)
  have "sortBy cmp (x # xs) = insertBy cmp x (sortBy cmp xs)" by (simp add: sortBy_def)
  then show ?case using sorted_insertBy[OF assms Cons.IH] by simp
qed

lemma compareEntries_total:
  assumes "consistentOrder lc"
  shows "compareEntries lc a b \<le> 0 \<or> compareEntries lc b a \<le> 0"
proof -
  have t: "lc (entryName a) (entryName b) \<le> 0 \<or> lc (entryName b) (entryName a) \<le> 0"
    using assms unfolding consistentOrder_def by blast
  show ?thesis
    by (cases "isDirectoryEntry a"; cases "isDirectoryEntry b")
       (use t in \<open>simp_all add: compareEntries_def\<close>)
qed

lemma compareEntries_trans:
  assumes "consistentOrder lc"
    and ab: "compareEntries lc a b \<le> 0" and bc: "compareEntries lc b c \<le> 0"
  shows "compareEntries lc a c \<le> 0"
proof -
  have t: "lc (entryName a) (entryName b) \<le> 0 \<Longrightarrow> lc (entryName b) (entryName c) \<le> 0 \<Longrightarrow>
           lc (entryName a) (entryName c) \<le> 0"
    using assms(1) unfolding consistentOrder_def by blast
  show ?thesis
    by (cases "isDirectoryEntry a"; cases "isDirectoryEntry b"; cases "isDirectoryEntry c")
       (use ab bc t in \<open>simp_all add: compareEntries_def\<close>)
qed

lemma directories_first:
  "sorted_wrt (\<lambda>a b. compareEntries lc a b \<le> 0) xs \<Longrightarrow>
   xs = filter isDirectoryEntry xs @ filter (\<lambda>c. \<not> isDirectoryEntry c) xs"
proof (induction xs)
  case Nil
  then show ?case by simp
next
  case (Cons x xs)
  show ?case
  proof (cases "isDirectoryEntry x")
    case True
    with Cons show ?thesis by simp
  next
    case False
    have "\<forall>y \<in> set xs. \<not> isDirectoryEntry y"
    proof
      fix y assume "y \<in> set xs"
      then have "compareEntries lc x y \<le> 0" using Cons.prems by simp
      then show "\<not> isDirectoryEntry y" using False by (auto simp: compareEntries_def split: if_splits)
    qed
    then have "filter isDirectoryEntry xs = []" "filter (\<lambda>c. \<not> isDirectoryEntry c) xs = xs"
      by (auto simp: filter_empty_conv filter_id_conv)
    with False show ?thesis by simp
  qed
qed

lemma ordered_within_kind:
  assumes "sorted_wrt (\<lambda>a b. compareEntries lc a b \<le> 0) xs"
    and "\<forall>x \<in> set xs. \<forall>y \<in> set xs. Q x \<and> Q y \<longrightarrow> isDirectoryEntry x = isDirectoryEntry y"
  shows "orderedByName lc (filter Q xs)"
proof -
  have "sorted_wrt (\<lambda>a b. compareEntries lc a b \<le> 0) (filter Q xs)"
    using assms(1) by (rule sorted_wrt_filter)
  then have "sorted_wrt (\<lambda>a b. lc (entryName a) (entryName b) \<le> 0) (filter Q xs)"
  proof (rule sorted_wrt_mono_rel[rotated])
    fix a b assume ab: "a \<in> set (filter Q xs)" "b \<in> set (filter Q xs)"
      and le: "compareEntries lc a b \<le> 0"
    from ab have "a \<in> set xs" "b \<in> set xs" "Q a" "Q b" by simp_all
    with assms(2) have "isDirectoryEntry a = isDirectoryEntry b" by blast
    then have "compareEntries lc a b = lc (entryName a) (entryName b)"
      by (simp add: compareEntries_def)
    with le show "lc (entryName a) (entryName b) \<le> 0" by simp
  qed
  then show ?thesis by (simp add: orderedByName_def)
qed

lemma childrenSorted_sortBy:
  assumes "consistentOrder lc"
  shows "childrenSorted lc (sortBy (compareEntries lc) xs)"
proof -
  let ?ys = "sortBy (compareEntries lc) xs"
  have s: "sorted_wrt (\<lambda>a b. compareEntries lc a b \<le> 0) ?ys"
    by (rule sorted_sortBy) (use assms compareEntries_total compareEntries_trans in blast)+
  have d: "orderedByName lc (filter isDirectoryEntry ?ys)"
    by (rule ordered_within_kind[OF s]) blast
  have f: "orderedByName lc (filter (\<lambda>c. \<not> isDirectoryEntry c) ?ys)"
    by (rule ordered_within_kind[OF s]) blast
  show ?thesis
    unfolding childrenSorted_def
    by (intro conjI directories_first[OF s] d f)
qed


lemma buildEntry_file:
  "buildEntry P lc dirPath (FsFile name stats) = Inr (Some n) \<Longrightarrow> \<exists>f. n = FileEntry f"
  by (cases "createFileNode P (path_join P dirPath name) stats")
     (auto simp: Let_def split: if_splits)

lemma buildEntry_directory:
  assumes "buildEntry P lc dirPath (FsDirectory name contents) = Inr (Some n)"
  shows "\<exists>entries children md. contents = Some entries \<and> name \<notin> set EXCLUDE_DIRS \<and>
           buildEntries P lc (path_join P dirPath name) entries = Inr children \<and>
           n = DirectoryEntry name (path_join P dirPath name)
                 (sortBy (compareEntries lc) children) md"
proof (cases "name \<in> set EXCLUDE_DIRS")
  case True
  with assms show ?thesis by (simp add: Let_def)
next
  case False
  show ?thesis
  proof (cases contents)
    case None
    with False assms show ?thesis by (simp add: Let_def)
  next
    case (Some entries)
    show ?thesis
    proof (cases "buildEntries P lc (path_join P dirPath name) entries")
      case (Inl e)
      with False Some assms show ?thesis by (simp add: Let_def)
    next
      case (Inr children)
      with False Some assms show ?thesis by (auto simp: Let_def)
    qed
  qed
qed

lemma buildEntries_cons:
  assumes "buildEntries P lc dirPath (entry # entries) = Inr ns"
  shows "\<exists>r rs. buildEntry P lc dirPath entry = Inr r \<and>
           buildEntries P lc dirPath entries = Inr rs \<and>
           ns = (case r of None \<Rightarrow> rs | Some n \<Rightarrow> n # rs)"
proof (cases "buildEntry P lc dirPath entry")
  case (Inl e)
  with assms show ?thesis by simp
next
  case r: (Inr r)
  show ?thesis
  proof (cases "buildEntries P lc dirPath entries")
    case (Inl e)
    with r assms show ?thesis by simp
  next
    case (Inr rs)
    with r assms show ?thesis by auto
  qed
qed

lemma build_sorted:
  "consistentOrder lc \<Longrightarrow> buildEntry P lc dirPath entry = Inr (Some n) \<Longrightarrow> treeSorted lc n"
  "consistentOrder lc \<Longrightarrow> buildEntries P lc dirPath entries = Inr ns \<Longrightarrow>
     list_all (treeSorted lc) ns"
proof (induction P lc dirPath entry and P lc dirPath entries arbitrary: n and ns
    rule: buildEntry_buildEntries.induct)
  case (1 P lc dirPath name)
  then show ?case by simp
next
  case (2 P lc dirPath name stats)
  from buildEntry_file[OF "2.prems"(2)] show ?case by auto
next
  case (3 P lc dirPath name contents)
  from buildEntry_directory[OF "3.prems"(2)] obtain entries children md where
    c: "contents = Some entries" "name \<notin> set EXCLUDE_DIRS"
       "buildEntries P lc (path_join P dirPath name) entries = Inr children"
       "n = DirectoryEntry name (path_join P dirPath name) (sortBy (compareEntries lc) children) md"
    by blast
  have "list_all (treeSorted lc) children"
    using "3.IH"[OF refl c(2) c(1) "3.prems"(1) c(3)] .
  then have "list_all (treeSorted lc) (sortBy (compareEntries lc) children)"
    by (simp add: list_all_iff set_sortBy)
  then show ?case using c(4) childrenSorted_sortBy[OF "3.prems"(1)] by simp
next
  case (4 P lc dirPath)
  then show ?case by simp
next
  case (5 P lc dirPath entry entries)
  from buildEntries_cons[OF "5.prems"(2)] obtain r rs where
    r: "buildEntry P lc dirPath entry = Inr r" "buildEntries P lc dirPath entries = Inr rs"
       "ns = (case r of None \<Rightarrow> rs | Some n \<Rightarrow> n # rs)"
    by blast
  have "list_all (treeSorted lc) rs" using "5.IH"(2)[OF r(1) "5.prems"(1) r(2)] .
  moreover have "\<And>n. r = Some n \<Longrightarrow> treeSorted lc n"
    using "5.IH"(1)[OF "5.prems"(1)] r(1) by simp
  ultimately show ?case using r(3) by (cases r) auto
qed

lemma buildDirectoryTree_sorted:
  assumes "consistentOrder lc"
    and "buildDirectoryTree P lc dirPath contents = Inr children"
  shows "childrenSorted lc children \<and> list_all (treeSorted lc) children"
proof (cases contents)
  case None
  with assms(2) show ?thesis by (simp add: buildDirectoryTree_def)
next
  case (Some entries)
  show ?thesis
  proof (cases "buildEntries P lc dirPath entries")
    case (Inl e)
    with Some assms(2) show ?thesis by (simp add: buildDirectoryTree_def)
  next
    case (Inr cs)
    with Some assms(2) have c: "children = sortBy (compareEntries lc) cs"
      by (simp add: buildDirectoryTree_def)
    have "list_all (treeSorted lc) cs"
      using build_sorted(2)[OF assms(1) Inr] .
    then have "list_all (treeSorted lc) (sortBy (compareEntries lc) cs)"
      by (simp add: list_all_iff set_sortBy)
    then show ?thesis using c childrenSorted_sortBy[OF assms(1)] by simp
  qed
qed

lemma mixedCase_scan:
  "scanProjectDirectory samplePath sampleLocaleCompare ''/proj'' mixedCaseDirectory = Inr mixedCaseScan"
  by code_simp

text \<open>
  C5, as stated, fails: the scan orders the names with \<^verbatim>\<open>localeCompare\<close>,
  which puts \<open>a.ts\<close> before \<open>B.ts\<close> and \<open>alpha\<close> before \<open>Zeta\<close>, while the
  lexicographic order of the code units puts the upper-case names first; the tree of the
  example is not sorted lexicographically.
\<close>

theorem scanned_children_not_lexicographic:
  "scanProjectDirectory samplePath sampleLocaleCompare ''/proj'' mixedCaseDirectory = Inr mixedCaseScan \<and>
   \<not> treeSorted lexCompare mixedCaseScan \<and>
   sampleLocaleCompare ''a.ts'' ''B.ts'' = - 1 \<and> lexCompare ''a.ts'' ''B.ts'' = 1"
  by code_simp

text \<open>
  C5, amended: in every directory tree that the source scanner returns, the children of
  every directory node are sorted: all directory entries come before all file entries, and
  each of the two groups is ordered by name in the order of \<^verbatim>\<open>localeCompare\<close>, the
  name comparison that the scan uses (a total preorder, given by the collation of the
  runtime).
\<close>

theorem scanned_children_sorted:
  assumes "consistentOrder lc"
    and "scanProjectDirectory P lc projectRoot contents = Inr tree"
  shows "treeSorted lc tree"
proof (cases "buildDirectoryTree P lc projectRoot contents")
  case (Inl e)
  with assms(2) show ?thesis by (simp add: scanProjectDirectory_def)
next
  case (Inr children)
  with assms(2) have "tree = DirectoryEntry (path_basename P projectRoot) projectRoot children None"
    by (simp add: scanProjectDirectory_def)
  then show ?thesis using buildDirectoryTree_sorted[OF assms(1) Inr] by simp
qed

text \<open>C5, witness: a project directory with two files and three directories, one of them
  excluded, whose names differ in case.\<close>

theorem scanned_children_sorted_witness:
  "consistentOrder sampleLocaleCompare \<and>
   scanProjectDirectory samplePath sampleLocaleCompare ''/proj'' mixedCaseDirectory = Inr mixedCaseScan \<and>
   treeSorted sampleLocaleCompare mixedCaseScan"
  using scanned_children_sorted[OF consistent_sampleLocaleCompare mixedCase_scan]
    consistent_sampleLocaleCompare mixedCase_scan
  by blast


section \<open>Properties of the cycle detector\<close>

lemma edge_alt: "edge m u v = (v \<in> set (dependenciesOf m u))"
  by (cases "map_of m u") (simp_all add: edge_def dependenciesOf_def)

lemma findIndex_notmem: "node \<notin> set path \<Longrightarrow> findIndex path node = - 1"
  by (induction path) (auto simp: Let_def)

lemma findIndex_mem:
  "node \<in> set path \<Longrightarrow>
     0 \<le> findIndex path node \<and>
     drop (nat (findIndex path node)) path = dropWhile (\<lambda>p. p \<noteq> node) path"
proof (induction path)
  case Nil
  then show ?case by simp
next
  case (Cons p ps)
  show ?case
  proof (cases "p = node")
    case True
    then show ?thesis by simp
  next
    case False
    with Cons.prems have "node \<in> set ps" by simp
    from Cons.IH[OF this] have i: "0 \<le> findIndex ps node"
      and d: "drop (nat (findIndex ps node)) ps = dropWhile (\<lambda>p. p \<noteq> node) ps" by simp_all
    have "nat (findIndex ps node + 1) = Suc (nat (findIndex ps node))" using i by simp
    with False i d show ?thesis by (simp add: Let_def)
  qed
qed

lemma recordCycle_mem:
  "node \<in> set path \<Longrightarrow>
   recordCycle names node path st =
     st\<lparr>found := found st @ [cycleRecord names (dropWhile (\<lambda>p. p \<noteq> node) path)]\<rparr>"
  using findIndex_mem[of node path] by (simp add: recordCycle_def cycleRecord_def Let_def)

lemma successively_dropWhile: "successively P xs \<Longrightarrow> successively P (dropWhile Q xs)"
proof (induction xs)
  case Nil
  then show ?case by simp
next
  case (Cons x xs)
  then have "successively P xs" by (cases xs) simp_all
  with Cons show ?case by simp
qed

lemma slice_isCycle:
  assumes "distinct path" "successively (edge m) path" "node \<in> set path"
    "edge m (last path) node"
  shows "isCycle m (dropWhile (\<lambda>p. p \<noteq> node) path)"
proof -
  let ?s = "dropWhile (\<lambda>p. p \<noteq> node) path"
  have ne: "?s \<noteq> []" using assms(3) by (simp add: dropWhile_eq_Nil_conv) 
  have hd: "hd ?s = node" using hd_dropWhile[OF ne] by simp
  have split: "path = takeWhile (\<lambda>p. p \<noteq> node) path @ ?s" by simp
  have last: "last ?s = last path" using ne split by (metis last_appendR)
  have d: "distinct ?s" using assms(1) by (rule distinct_dropWhile)
  have s: "successively (edge m) ?s" using assms(2) by (rule successively_dropWhile)
  show ?thesis unfolding isCycle_def using ne d s hd last assms(4) by simp
qed

lemma dfsFrame_refl: "dfsInv m path st \<Longrightarrow> dfsFrame m names path st st"
  by (auto simp: dfsFrame_def dfsInv_def)

lemma dfsFrame_trans:
  assumes "dfsFrame m names path st st1" "dfsFrame m names path st1 st2"
  shows "dfsFrame m names path st st2"
proof -
  from assms(1) obtain n1 where n1: "found st1 = found st @ n1"
    "\<forall>r \<in> set n1. reported m names path r"
    unfolding dfsFrame_def by blast
  from assms(2) obtain n2 where n2: "found st2 = found st1 @ n2"
    "\<forall>r \<in> set n2. reported m names path r"
    unfolding dfsFrame_def by blast
  have f: "found st2 = found st @ (n1 @ n2)" using n1(1) n2(1) by simp
  have a: "\<forall>r \<in> set (n1 @ n2). reported m names path r"
    using n1(2) n2(2) by auto
  have "stack st2 = stack st" "visited st \<subseteq> visited st2" "visited st2 \<inter> stack st = {}"
    using assms unfolding dfsFrame_def by auto
  then show ?thesis unfolding dfsFrame_def using f a by blast
qed

lemma dfsInv_frame: "dfsInv m path st \<Longrightarrow> dfsFrame m names path st st' \<Longrightarrow> dfsInv m path st'"
  by (auto simp: dfsFrame_def dfsInv_def)

lemma dfsFrame_found: "dfsFrame m names path st st' \<Longrightarrow> found st \<noteq> [] \<Longrightarrow> found st' \<noteq> []"
  by (auto simp: dfsFrame_def)

lemma dfs_frame:
  "dfsInv m path st \<Longrightarrow> (path \<noteq> [] \<longrightarrow> edge m (last path) node) \<Longrightarrow>
     dfsFrame m names path st (dfs m names node path st) \<and>
     (node \<in> visited (dfs m names node path st) \<or> found (dfs m names node path st) \<noteq> [])"
  "dfsInv m path st \<Longrightarrow> (path \<noteq> [] \<longrightarrow> (\<forall>d \<in> set ds. edge m (last path) d)) \<Longrightarrow>
     dfsFrame m names path st (dfs_each m names ds path st) \<and>
     (\<forall>d \<in> set ds. d \<in> visited (dfs_each m names ds path st) \<or>
         found (dfs_each m names ds path st) \<noteq> [])"
proof (induction m names node path st and m names ds path st rule: dfs_dfs_each.induct)
  case (1 m names node path st)
  note inv = "1.prems"(1)
  show ?case
  proof (cases "node \<in> visited st")
    case True
    then have "dfs m names node path st = st" by (simp add: dfs.simps)
    with True inv show ?thesis by (simp add: dfsFrame_refl)
  next
    case nv: False
    show ?thesis
    proof (cases "node \<in> stack st")
      case True
      then have mem: "node \<in> set path" using inv by (simp add: dfsInv_def)
      then have ne: "path \<noteq> []" by auto
      let ?s = "dropWhile (\<lambda>p. p \<noteq> node) path"
      have e: "dfs m names node path st = st\<lparr>found := found st @ [cycleRecord names ?s]\<rparr>"
        using nv True recordCycle_mem[OF mem] by (simp add: dfs.simps)
      have c: "isCycle m ?s"
        using inv mem ne "1.prems"(2) by (intro slice_isCycle) (simp_all add: dfsInv_def)
      have "path @ [] = takeWhile (\<lambda>p. p \<noteq> node) path @ ?s \<and> distinct (path @ [])"
        using inv by (simp add: dfsInv_def)
      then have rep: "reported m names path (cycleRecord names ?s)"
        unfolding reported_def using c by blast
      have "dfsFrame m names path st (st\<lparr>found := found st @ [cycleRecord names ?s]\<rparr>)"
        unfolding dfsFrame_def using inv rep by (auto simp: dfsInv_def)
      then show ?thesis unfolding e by simp
    next
      case ns: False
      let ?st1 = "st\<lparr>stack := insert node (stack st)\<rparr>"
      let ?path1 = "path @ [node]"
      let ?st2 = "dfs_each m names (dependenciesOf m node) ?path1 ?st1"
      have e: "dfs m names node path st =
          ?st2\<lparr>stack := stack ?st2 - {node}, visited := insert node (visited ?st2)\<rparr>"
        using nv ns by (simp add: dfs.simps Let_def)
      have nm: "node \<notin> set path" using ns inv by (simp add: dfsInv_def)
      have inv1: "dfsInv m ?path1 ?st1"
        using inv nv nm "1.prems"(2) by (auto simp: dfsInv_def successively_append_iff)
      have pre1: "?path1 \<noteq> [] \<longrightarrow> (\<forall>d \<in> set (dependenciesOf m node). edge m (last ?path1) d)"
        by (simp add: edge_alt)
      from "1.IH"[OF nv ns refl refl inv1 pre1]
      have fr: "dfsFrame m names ?path1 ?st1 ?st2" by blast
      have ext: "reported m names path r" if "reported m names ?path1 r" for r
      proof -
        from that obtain s pre q where "isCycle m s" "r = cycleRecord names s"
          "?path1 @ q = pre @ s" "distinct (?path1 @ q)" unfolding reported_def by blast
        then have "isCycle m s \<and> r = cycleRecord names s \<and>
            path @ (node # q) = pre @ s \<and> distinct (path @ (node # q))" by simp
        then show ?thesis unfolding reported_def by blast
      qed
      from fr obtain new where new: "found ?st2 = found ?st1 @ new"
        "\<forall>r \<in> set new. reported m names ?path1 r" unfolding dfsFrame_def by blast
      have rest: "stack ?st2 = stack ?st1" "visited ?st1 \<subseteq> visited ?st2"
        "visited ?st2 \<inter> stack ?st1 = {}" using fr unfolding dfsFrame_def by blast+
      have "found ?st2 = found st @ new \<and> (\<forall>r \<in> set new. reported m names path r)"
        using new ext by simp
      then have "dfsFrame m names path st
          (?st2\<lparr>stack := stack ?st2 - {node}, visited := insert node (visited ?st2)\<rparr>)"
        using rest ns nv unfolding dfsFrame_def by auto
      then show ?thesis unfolding e by simp
    qed
  qed
next
  case (2 m names path st)
  then show ?case by (simp add: dfsFrame_refl)
next
  case (3 m names dependency dependencies path st)
  let ?st1 = "dfs m names dependency path st"
  let ?st2 = "dfs_each m names dependencies path ?st1"
  have e: "dfs_each m names (dependency # dependencies) path st = ?st2" by simp
  from "3.prems"(2) have p1: "path \<noteq> [] \<longrightarrow> edge m (last path) dependency"
    and p2: "path \<noteq> [] \<longrightarrow> (\<forall>d \<in> set dependencies. edge m (last path) d)" by simp_all
  from "3.IH"(1)[OF "3.prems"(1) p1]
  have f1: "dfsFrame m names path st ?st1"
    and r1: "dependency \<in> visited ?st1 \<or> found ?st1 \<noteq> []" by blast+
  have inv1: "dfsInv m path ?st1" using "3.prems"(1) f1 by (rule dfsInv_frame)
  from "3.IH"(2)[OF inv1 p2]
  have f2: "dfsFrame m names path ?st1 ?st2"
    and r2: "\<forall>d \<in> set dependencies. d \<in> visited ?st2 \<or> found ?st2 \<noteq> []" by blast+
  have f: "dfsFrame m names path st ?st2" using f1 f2 by (rule dfsFrame_trans)
  have "dependency \<in> visited ?st2 \<or> found ?st2 \<noteq> []"
    using r1 f2 dfsFrame_found[OF f2] unfolding dfsFrame_def by blast
  with r2 f show ?case unfolding e by auto
qed

lemma dropWhile_slice:
  assumes "d \<in> set path"
  shows "dropWhile (\<lambda>p. p \<noteq> d) path \<noteq> []"
    and "hd (dropWhile (\<lambda>p. p \<noteq> d) path) = d"
    and "last (dropWhile (\<lambda>p. p \<noteq> d) path) = last path"
    and "set (dropWhile (\<lambda>p. p \<noteq> d) path) \<subseteq> set path"
proof -
  let ?s = "dropWhile (\<lambda>p. p \<noteq> d) path"
  show ne: "?s \<noteq> []" using assms by (simp add: dropWhile_eq_Nil_conv)
  show "hd ?s = d" using hd_dropWhile[OF ne] by simp
  have "path = takeWhile (\<lambda>p. p \<noteq> d) path @ ?s" by simp
  then show "last ?s = last path" using ne by (metis last_appendR)
  show "set ?s \<subseteq> set path" by (auto dest: set_dropWhileD)
qed

lemma backEdge_last:
  assumes "backEdge c path d"
  shows "path \<noteq> [] \<and> last path \<in> set c \<and> set c \<subseteq> set path"
proof -
  from assms obtain n where d: "d \<in> set path"
    and r: "dropWhile (\<lambda>p. p \<noteq> d) path = rotate n c" by (auto simp: backEdge_def)
  let ?s = "dropWhile (\<lambda>p. p \<noteq> d) path"
  have "last ?s \<in> set ?s" using dropWhile_slice(1)[OF d] by simp
  then have "last path \<in> set c" using dropWhile_slice(3)[OF d] r by simp
  moreover have "set c \<subseteq> set path" using dropWhile_slice(4)[OF d] r by simp
  moreover have "path \<noteq> []" using d by auto
  ultimately show ?thesis by simp
qed

lemma backEdge_unique:
  assumes "backEdge c path d" "backEdge c path d'"
  shows "d = d'"
proof -
  from assms(1) obtain n where d: "d \<in> set path"
    and r: "dropWhile (\<lambda>p. p \<noteq> d) path = rotate n c" by (auto simp: backEdge_def)
  from assms(2) obtain n' where d': "d' \<in> set path"
    and r': "dropWhile (\<lambda>p. p \<noteq> d') path = rotate n' c" by (auto simp: backEdge_def)
  let ?s = "dropWhile (\<lambda>p. p \<noteq> d) path" and ?s' = "dropWhile (\<lambda>p. p \<noteq> d') path"
  have l: "length ?s = length ?s'" using r r' by simp
  have "takeWhile (\<lambda>p. p \<noteq> d) path @ ?s = takeWhile (\<lambda>p. p \<noteq> d') path @ ?s'" by simp
  with l have "?s = ?s'" using append_eq_append_conv by blast
  then have "hd ?s = hd ?s'" by simp
  then show ?thesis using dropWhile_slice(2)[OF d] dropWhile_slice(2)[OF d'] by simp
qed

lemma cycle_successor:
  assumes "isCycle m c" "x \<in> set c"
  shows "\<exists>y \<in> set c. edge m x y"
proof -
  from assms(2) obtain xs ys where c: "c = xs @ x # ys" by (auto simp: in_set_conv_decomp)
  show ?thesis
  proof (cases ys)
    case Nil
    then have "last c = x" using c by simp
    moreover have "hd c \<in> set c" using assms(1) by (simp add: isCycle_def)
    ultimately show ?thesis using assms(1) by (auto simp: isCycle_def)
  next
    case (Cons y zs)
    have "successively (edge m) (xs @ x # y # zs)" using assms(1) c Cons by (simp add: isCycle_def)
    then have "edge m x y" by (simp add: successively_append_iff)
    moreover have "y \<in> set c" using c Cons by simp
    ultimately show ?thesis by blast
  qed
qed

lemma setsDistinct_dependenciesOf: "setsDistinct m \<Longrightarrow> distinct (dependenciesOf m node)"
proof (cases "map_of m node")
  case None
  then show ?thesis by (simp add: dependenciesOf_def)
next
  case (Some ds)
  assume a: "setsDistinct m"
  from Some have "(node, ds) \<in> set m" by (rule map_of_SomeD)
  then have "ds \<in> snd ` set m" by force
  with a have "distinct ds" by (auto simp: setsDistinct_def)
  with Some show ?thesis by (simp add: dependenciesOf_def)
qed

lemma cycleStep_back:
  assumes inv: "dfsInv m path st" and only: "onlyCycle m c"
    and mem: "node \<in> set path" and e: "edge m (last path) node"
  shows "cycleStep c path st (st\<lparr>found := found st @ [r]\<rparr>) (backEdge c path node) \<and>
         cycleSeen c (st\<lparr>found := found st @ [r]\<rparr>)"
proof -
  have "isCycle m (dropWhile (\<lambda>p. p \<noteq> node) path)"
    using inv mem e by (intro slice_isCycle) (simp_all add: dfsInv_def)
  then obtain n where "dropWhile (\<lambda>p. p \<noteq> node) path = rotate n c"
    using only unfolding onlyCycle_def by blast
  then have b: "backEdge c path node" using mem unfolding backEdge_def by blast
  then have sub: "set c \<subseteq> set path" using backEdge_last by blast
  have "visited st \<inter> set path = {}" using inv by (auto simp: dfsInv_def)
  with sub have nv: "set c \<inter> visited st = {}" by blast
  show ?thesis unfolding cycleStep_def cycleSeen_def using b sub nv by simp
qed

lemma cycleStep_each:
  assumes step1: "cycleStep c path st st1 (backEdge c path d)"
    and mono1: "visited st \<subseteq> visited st1"
    and step2: "cycleStep c path st1 st2 (\<exists>d' \<in> set ds. backEdge c path d')"
    and mono2: "visited st1 \<subseteq> visited st2"
    and dist: "path \<noteq> [] \<longrightarrow> distinct (d # ds)"
    and ne: "c \<noteq> []"
  shows "cycleStep c path st st2 (\<exists>d' \<in> set (d # ds). backEdge c path d')"
proof -
  let ?B = "\<exists>d' \<in> set (d # ds). backEdge c path d'"
  have q1: "found st2 = found st" if v: "set c \<inter> visited st \<noteq> {}"
  proof -
    from v step1 have "found st1 = found st" unfolding cycleStep_def by blast
    moreover from v mono1 have "set c \<inter> visited st1 \<noteq> {}" by blast
    with step2 have "found st2 = found st1" unfolding cycleStep_def by blast
    ultimately show ?thesis by simp
  qed
  have q2: "found st2 = found st \<or>
       ((\<exists>r. found st2 = found st @ [r]) \<and>
        (if set c \<subseteq> set path then ?B else set c \<inter> visited st2 \<noteq> {}))"
    if nv: "set c \<inter> visited st = {}"
  proof -
    from nv step1 have d1: "found st1 = found st \<or>
       ((\<exists>r. found st1 = found st @ [r]) \<and>
        (if set c \<subseteq> set path then backEdge c path d else set c \<inter> visited st1 \<noteq> {}))"
      unfolding cycleStep_def by blast
    show ?thesis
    proof (cases "set c \<inter> visited st1 = {}")
      case False
      with step2 have f2: "found st2 = found st1" unfolding cycleStep_def by blast
      from False mono2 have v2: "set c \<inter> visited st2 \<noteq> {}" by blast
      from d1 show ?thesis
      proof
        assume "found st1 = found st"
        with f2 show ?thesis by simp
      next
        assume a: "(\<exists>r. found st1 = found st @ [r]) \<and>
          (if set c \<subseteq> set path then backEdge c path d else set c \<inter> visited st1 \<noteq> {})"
        then have "\<exists>r. found st2 = found st @ [r]" using f2 by simp
        moreover have "if set c \<subseteq> set path then ?B else set c \<inter> visited st2 \<noteq> {}"
          using a v2 by (cases "set c \<subseteq> set path") auto
        ultimately show ?thesis by blast
      qed
    next
      case True
      with step2 have d2: "found st2 = found st1 \<or>
         ((\<exists>r. found st2 = found st1 @ [r]) \<and>
          (if set c \<subseteq> set path then (\<exists>d' \<in> set ds. backEdge c path d')
           else set c \<inter> visited st2 \<noteq> {}))"
        unfolding cycleStep_def by blast
      from d1 show ?thesis
      proof
        assume e: "found st1 = found st"
        from d2 show ?thesis
        proof
          assume "found st2 = found st1"
          with e show ?thesis by simp
        next
          assume a: "(\<exists>r. found st2 = found st1 @ [r]) \<and>
            (if set c \<subseteq> set path then (\<exists>d' \<in> set ds. backEdge c path d')
             else set c \<inter> visited st2 \<noteq> {})"
          then have "\<exists>r. found st2 = found st @ [r]" using e by simp
          moreover have "if set c \<subseteq> set path then ?B else set c \<inter> visited st2 \<noteq> {}"
            using a by (cases "set c \<subseteq> set path") auto
          ultimately show ?thesis by blast
        qed
      next
        assume a: "(\<exists>r. found st1 = found st @ [r]) \<and>
          (if set c \<subseteq> set path then backEdge c path d else set c \<inter> visited st1 \<noteq> {})"
        show ?thesis
        proof (cases "set c \<subseteq> set path")
          case sub: True
          with a have b: "backEdge c path d" by simp
          from sub ne have pne: "path \<noteq> []" by auto
          have "found st2 = found st1"
          proof (rule ccontr)
            assume "found st2 \<noteq> found st1"
            with d2 sub obtain d' where d': "d' \<in> set ds" "backEdge c path d'" by auto
            from backEdge_unique[OF b d'(2)] d'(1) have "d \<in> set ds" by simp
            with dist pne show False by simp
          qed
          with a have "\<exists>r. found st2 = found st @ [r]" by simp
          moreover have "?B" using b by simp
          ultimately show ?thesis using sub by simp
        next
          case False
          with a True show ?thesis by simp
        qed
      qed
    qed
  qed
  show ?thesis unfolding cycleStep_def using q1 q2 by blast
qed

lemma cycleStep_enter:
  assumes inv: "dfsInv m path st" and ns: "node \<notin> stack st"
    and step: "cycleStep c (path @ [node]) (st\<lparr>stack := insert node (stack st)\<rparr>) st2
                 (\<exists>d \<in> set (dependenciesOf m node). backEdge c (path @ [node]) d)"
    and reached: "\<forall>d \<in> set (dependenciesOf m node). d \<in> visited st2 \<or> found st2 \<noteq> []"
    and seen: "cycleSeen c st2"
    and cyc: "isCycle m c"
  shows "cycleStep c path st
           (st2\<lparr>stack := stack st2 - {node}, visited := insert node (visited st2)\<rparr>)
           (backEdge c path node) \<and>
         cycleSeen c (st2\<lparr>stack := stack st2 - {node}, visited := insert node (visited st2)\<rparr>)"
proof -
  let ?st' = "st2\<lparr>stack := stack st2 - {node}, visited := insert node (visited st2)\<rparr>"
  have nm: "node \<notin> set path" using inv ns by (simp add: dfsInv_def)
  have q1: "found ?st' = found st" if "set c \<inter> visited st \<noteq> {}"
    using that step unfolding cycleStep_def by simp
  have q2: "found ?st' = found st \<or>
       ((\<exists>r. found ?st' = found st @ [r]) \<and>
        (if set c \<subseteq> set path then backEdge c path node else set c \<inter> visited ?st' \<noteq> {}))"
    if nv: "set c \<inter> visited st = {}"
  proof -
    from nv step have d: "found st2 = found st \<or>
       ((\<exists>r. found st2 = found st @ [r]) \<and>
        (if set c \<subseteq> set (path @ [node])
         then (\<exists>d \<in> set (dependenciesOf m node). backEdge c (path @ [node]) d)
         else set c \<inter> visited st2 \<noteq> {}))"
      unfolding cycleStep_def by simp
    from d show ?thesis
    proof
      assume "found st2 = found st"
      then show ?thesis by simp
    next
      assume a: "(\<exists>r. found st2 = found st @ [r]) \<and>
        (if set c \<subseteq> set (path @ [node])
         then (\<exists>d \<in> set (dependenciesOf m node). backEdge c (path @ [node]) d)
         else set c \<inter> visited st2 \<noteq> {})"
      show ?thesis
      proof (cases "set c \<subseteq> set path")
        case True
        then have "set c \<subseteq> set (path @ [node])" by auto
        with a obtain d where "backEdge c (path @ [node]) d" by auto
        from backEdge_last[OF this] have "node \<in> set c" by simp
        with True nm show ?thesis by blast
      next
        case False
        have "set c \<inter> visited ?st' \<noteq> {}"
        proof (cases "set c \<subseteq> set (path @ [node])")
          case True
          with False have "node \<in> set c" by auto
          then show ?thesis by auto
        next
          case f: False
          with a have "set c \<inter> visited st2 \<noteq> {}" by simp
          then show ?thesis by auto
        qed
        with a False show ?thesis by simp
      qed
    qed
  qed
  have s: "cycleSeen c ?st'"
    unfolding cycleSeen_def
  proof
    assume v: "set c \<inter> visited ?st' \<noteq> {}"
    show "found ?st' \<noteq> []"
    proof (cases "set c \<inter> visited st2 = {}")
      case False
      with seen show ?thesis by (simp add: cycleSeen_def)
    next
      case True
      with v have "node \<in> set c" by auto
      from cycle_successor[OF cyc this] obtain y where y: "y \<in> set c" "edge m node y" by blast
      then have "y \<in> set (dependenciesOf m node)" by (simp add: edge_alt)
      with reached have "y \<in> visited st2 \<or> found st2 \<noteq> []" by blast
      with True y(1) show ?thesis by auto
    qed
  qed
  show ?thesis unfolding cycleStep_def using q1 q2 s by blast
qed

lemma dfs_cycle:
  assumes only: "onlyCycle m c" and sd: "setsDistinct m"
  shows "dfsInv m path st \<Longrightarrow> (path \<noteq> [] \<longrightarrow> edge m (last path) node) \<Longrightarrow> cycleSeen c st \<Longrightarrow>
           cycleStep c path st (dfs m names node path st) (backEdge c path node) \<and>
           cycleSeen c (dfs m names node path st)"
    and "dfsInv m path st \<Longrightarrow> (path \<noteq> [] \<longrightarrow> (\<forall>d \<in> set ds. edge m (last path) d)) \<Longrightarrow>
           (path \<noteq> [] \<longrightarrow> distinct ds) \<Longrightarrow> cycleSeen c st \<Longrightarrow>
           cycleStep c path st (dfs_each m names ds path st) (\<exists>d \<in> set ds. backEdge c path d) \<and>
           cycleSeen c (dfs_each m names ds path st)"
  using assms
proof (induction m names node path st and m names ds path st rule: dfs_dfs_each.induct)
  case (1 m names node path st)
  note inv = "1.prems"(1) and pre = "1.prems"(2) and seen = "1.prems"(3)
    and only = "1.prems"(4) and sd = "1.prems"(5)
  show ?case
  proof (cases "node \<in> visited st")
    case True
    then have "dfs m names node path st = st" by (simp add: dfs.simps)
    then show ?thesis using seen by (simp add: cycleStep_def)
  next
    case nv: False
    show ?thesis
    proof (cases "node \<in> stack st")
      case True
      then have mem: "node \<in> set path" using inv by (simp add: dfsInv_def)
      then have ne: "path \<noteq> []" by auto
      let ?s = "dropWhile (\<lambda>p. p \<noteq> node) path"
      have e: "dfs m names node path st = st\<lparr>found := found st @ [cycleRecord names ?s]\<rparr>"
        using nv True recordCycle_mem[OF mem] by (simp add: dfs.simps)
      show ?thesis unfolding e using cycleStep_back[OF inv only mem] pre ne by blast
    next
      case ns: False
      let ?st1 = "st\<lparr>stack := insert node (stack st)\<rparr>"
      let ?path1 = "path @ [node]"
      let ?st2 = "dfs_each m names (dependenciesOf m node) ?path1 ?st1"
      have e: "dfs m names node path st =
          ?st2\<lparr>stack := stack ?st2 - {node}, visited := insert node (visited ?st2)\<rparr>"
        using nv ns by (simp add: dfs.simps Let_def)
      have nm: "node \<notin> set path" using ns inv by (simp add: dfsInv_def)
      have inv1: "dfsInv m ?path1 ?st1"
        using inv nv nm pre by (auto simp: dfsInv_def successively_append_iff)
      have pre1: "?path1 \<noteq> [] \<longrightarrow> (\<forall>d \<in> set (dependenciesOf m node). edge m (last ?path1) d)"
        by (simp add: edge_alt)
      have dist1: "?path1 \<noteq> [] \<longrightarrow> distinct (dependenciesOf m node)"
        using setsDistinct_dependenciesOf[OF sd] by simp
      have seen1: "cycleSeen c ?st1" using seen by (simp add: cycleSeen_def)
      from "1.IH"[OF nv ns refl refl inv1 pre1 dist1 seen1 only sd]
      have step: "cycleStep c ?path1 ?st1 ?st2
                    (\<exists>d \<in> set (dependenciesOf m node). backEdge c ?path1 d)"
        and seen2: "cycleSeen c ?st2" by blast+
      from dfs_frame(2)[OF inv1 pre1]
      have reached: "\<forall>d \<in> set (dependenciesOf m node). d \<in> visited ?st2 \<or> found ?st2 \<noteq> []"
        by blast
      have cyc: "isCycle m c" using only by (simp add: onlyCycle_def)
      show ?thesis unfolding e
        using cycleStep_enter[OF inv ns step reached seen2 cyc] .
    qed
  qed
next
  case (2 m names path st)
  then show ?case by (simp add: cycleStep_def)
next
  case (3 m names dependency dependencies path st)
  note inv = "3.prems"(1) and pre = "3.prems"(2) and dist = "3.prems"(3)
    and seen = "3.prems"(4) and only = "3.prems"(5) and sd = "3.prems"(6)
  let ?st1 = "dfs m names dependency path st"
  let ?st2 = "dfs_each m names dependencies path ?st1"
  have e: "dfs_each m names (dependency # dependencies) path st = ?st2" by simp
  from pre have p1: "path \<noteq> [] \<longrightarrow> edge m (last path) dependency"
    and p2: "path \<noteq> [] \<longrightarrow> (\<forall>d \<in> set dependencies. edge m (last path) d)" by simp_all
  from dist have d2: "path \<noteq> [] \<longrightarrow> distinct dependencies" by simp
  from "3.IH"(1)[OF inv p1 seen only sd]
  have step1: "cycleStep c path st ?st1 (backEdge c path dependency)"
    and seen1: "cycleSeen c ?st1" by blast+
  from dfs_frame(1)[OF inv p1] have f1: "dfsFrame m names path st ?st1" by blast
  have inv1: "dfsInv m path ?st1" using inv f1 by (rule dfsInv_frame)
  from "3.IH"(2)[OF inv1 p2 d2 seen1 only sd]
  have step2: "cycleStep c path ?st1 ?st2 (\<exists>d \<in> set dependencies. backEdge c path d)"
    and seen2: "cycleSeen c ?st2" by blast+
  from dfs_frame(2)[OF inv1 p2] have f2: "dfsFrame m names path ?st1 ?st2" by blast
  have mono1: "visited st \<subseteq> visited ?st1" using f1 by (simp add: dfsFrame_def)
  have mono2: "visited ?st1 \<subseteq> visited ?st2" using f2 by (simp add: dfsFrame_def)
  have ne: "c \<noteq> []" using only by (simp add: onlyCycle_def isCycle_def)
  show ?case unfolding e
    using cycleStep_each[OF step1 mono1 step2 mono2 dist ne] seen2 by blast
qed

lemma fold_dfs_each:
  "fold (\<lambda>node st. dfs m names node [] st) ks st = dfs_each m names ks [] st"
  by (induction ks arbitrary: st) simp_all

lemma dfsInv_initial: "dfsInv m [] \<lparr>visited = {}, stack = {}, found = []\<rparr>"
  by (simp add: dfsInv_def)

lemma detect_reported:
  "\<forall>r \<in> set (detectCircularDependencies m names). reported m names [] r"
proof -
  let ?init = "\<lparr>visited = {}, stack = {}, found = []\<rparr>"
  have "dfsFrame m names [] ?init (dfs_each m names (map fst m) [] ?init)"
    using dfs_frame(2)[OF dfsInv_initial, of "map fst m" m names] by simp
  then show ?thesis
    unfolding detectCircularDependencies_def fold_dfs_each dfsFrame_def by auto
qed

lemma detect_acyclic: "acyclicMap m \<Longrightarrow> detectCircularDependencies m names = []"
proof (rule ccontr)
  assume a: "acyclicMap m" and n: "detectCircularDependencies m names \<noteq> []"
  then obtain r where "r \<in> set (detectCircularDependencies m names)"
    by (cases "detectCircularDependencies m names") auto
  with detect_reported have "reported m names [] r" by blast
  with a show False unfolding reported_def acyclicMap_def by blast
qed

lemma detect_severity:
  "r \<in> set (detectCircularDependencies m names) \<Longrightarrow>
     cd_severity r = (if length (cd_path r) > 3 then CycleCritical else CycleWarning)"
proof -
  assume "r \<in> set (detectCircularDependencies m names)"
  with detect_reported have "reported m names [] r" by blast
  then obtain s where "r = cycleRecord names s" unfolding reported_def by blast
  then show ?thesis by (simp add: cycleRecord_def)
qed

lemma cycle_node_is_key:
  assumes "isCycle m c" "x \<in> set c"
  shows "x \<in> set (map fst m)"
proof -
  from cycle_successor[OF assms] obtain y where "edge m x y" by blast
  then have "dependenciesOf m x \<noteq> []" by (auto simp: edge_alt)
  then obtain ds where "map_of m x = Some ds"
    by (cases "map_of m x") (simp_all add: dependenciesOf_def)
  then have "(x, ds) \<in> set m" by (rule map_of_SomeD)
  then show ?thesis by force
qed

lemma detect_only_cycle:
  assumes only: "onlyCycle m c" and sd: "setsDistinct m"
  shows "\<exists>n. detectCircularDependencies m names = [cycleRecord names (rotate n c)]"
proof -
  let ?init = "\<lparr>visited = {}, stack = {}, found = []\<rparr>"
  let ?fin = "dfs_each m names (map fst m) [] ?init"
  have cyc: "isCycle m c" using only by (simp add: onlyCycle_def)
  then have ne: "c \<noteq> []" by (simp add: isCycle_def)
  have seen0: "cycleSeen c ?init" by (simp add: cycleSeen_def)
  from dfs_cycle(2)[OF only sd dfsInv_initial _ _ seen0, of "map fst m" names]
  have step: "cycleStep c [] ?init ?fin (\<exists>d \<in> set (map fst m). backEdge c [] d)"
    and seen: "cycleSeen c ?fin" by simp_all
  from dfs_frame(2)[OF dfsInv_initial, of "map fst m" m names]
  have fr: "dfsFrame m names [] ?init ?fin"
    and reached: "\<forall>d \<in> set (map fst m). d \<in> visited ?fin \<or> found ?fin \<noteq> []" by simp_all
  have "hd c \<in> set c" using ne by simp
  then have "hd c \<in> set (map fst m)" using cycle_node_is_key[OF cyc] by blast
  with reached have "hd c \<in> visited ?fin \<or> found ?fin \<noteq> []" by blast
  with seen \<open>hd c \<in> set c\<close> have nonempty: "found ?fin \<noteq> []"
    unfolding cycleSeen_def by blast
  from step ne have "found ?fin = [] \<or> (\<exists>r. found ?fin = [r])"
    unfolding cycleStep_def by auto
  with nonempty obtain r where r: "found ?fin = [r]" by blast
  from fr r have "reported m names [] r" unfolding dfsFrame_def by auto
  then obtain s where "isCycle m s" "r = cycleRecord names s" unfolding reported_def by blast
  with only obtain n where "r = cycleRecord names (rotate n c)" unfolding onlyCycle_def by blast
  with r show ?thesis unfolding detectCircularDependencies_def fold_dfs_each by blast
qed

lemma rotate_same_head:
  assumes "distinct c" "c \<noteq> []" "hd (rotate n c) = hd c"
  shows "rotate n c = c"
proof -
  have l: "n mod length c < length c" using assms(2) by simp
  have "hd (rotate n c) = c ! (n mod length c)"
    using assms(2) by (rule hd_rotate_conv_nth)
  moreover have "hd c = c ! 0" using assms(2) by (rule hd_conv_nth)
  ultimately have "c ! (n mod length c) = c ! 0" using assms(3) by simp
  with assms(1) l have "n mod length c = 0"
    using nth_eq_iff_index_eq[of c "n mod length c" 0] assms(2) by simp
  then have "rotate n c = rotate 0 c" using rotate_conv_mod[of n c] by simp
  then show ?thesis by simp
qed

lemma detect_first_key:
  assumes only: "onlyCycle m c" and sd: "setsDistinct m"
    and first: "m \<noteq> []" "fst (hd m) = hd c"
  shows "detectCircularDependencies m names = [cycleRecord names c]"
proof -
  let ?init = "\<lparr>visited = {}, stack = {}, found = []\<rparr>"
  let ?k = "hd c"
  have cyc: "isCycle m c" using only by (simp add: onlyCycle_def)
  then have ne: "c \<noteq> []" and dc: "distinct c" by (simp_all add: isCycle_def)
  have kc: "?k \<in> set c" using ne by simp
  from first obtain ks where keys: "map fst m = ?k # ks" by (cases m) auto
  let ?st1 = "?init\<lparr>stack := insert ?k (stack ?init)\<rparr>"
  let ?st2 = "dfs_each m names (dependenciesOf m ?k) [?k] ?st1"
  let ?stk = "dfs m names ?k [] ?init"
  let ?fin = "dfs_each m names ks [] ?stk"
  have d: "detectCircularDependencies m names = found ?fin"
    unfolding detectCircularDependencies_def fold_dfs_each keys by simp
  have ek: "?stk = ?st2\<lparr>stack := stack ?st2 - {?k}, visited := insert ?k (visited ?st2)\<rparr>"
    by (simp add: dfs.simps[of m names ?k "[]" ?init] Let_def)
  have inv1: "dfsInv m [?k] ?st1" by (simp add: dfsInv_def)
  have pre1: "[?k] \<noteq> [] \<longrightarrow> (\<forall>d \<in> set (dependenciesOf m ?k). edge m (last [?k]) d)"
    by (simp add: edge_alt)
  have "dfsFrame m names [?k] ?st1 ?st2"
    using dfs_frame(2)[OF inv1 pre1] by blast
  then obtain new where new: "found ?st2 = new" "\<forall>r \<in> set new. reported m names [?k] r"
    unfolding dfsFrame_def by auto
  have fk: "found ?stk = new" using ek new(1) by simp
  have seen0: "cycleSeen c ?init" by (simp add: cycleSeen_def)
  have "cycleSeen c ?stk"
    using dfs_cycle(1)[OF only sd dfsInv_initial _ seen0] by simp
  moreover have "?k \<in> visited ?stk" using ek by simp
  ultimately have nonempty: "new \<noteq> []" using kc fk unfolding cycleSeen_def by auto
  have frk: "dfsFrame m names [] ?init ?stk"
    using dfs_frame(1)[OF dfsInv_initial] by simp
  have invk: "dfsInv m [] ?stk" using dfsInv_initial frk by (rule dfsInv_frame)
  have "dfsFrame m names [] ?stk ?fin"
    using dfs_frame(2)[OF invk] by simp
  then obtain rest where rest: "found ?fin = new @ rest" unfolding dfsFrame_def using fk by auto
  from detect_only_cycle[OF only sd, of names] obtain n where
    one: "detectCircularDependencies m names = [cycleRecord names (rotate n c)]" by blast
  with d rest nonempty have n1: "new = [cycleRecord names (rotate n c)]"
    by (cases new) (auto simp: Cons_eq_append_conv)
  then have all: "detectCircularDependencies m names = new" using one by simp
  from n1 new(2) have "reported m names [?k] (cycleRecord names (rotate n c))" by simp
  then obtain s pre q where s: "isCycle m s" "cycleRecord names (rotate n c) = cycleRecord names s"
    "[?k] @ q = pre @ s" "distinct ([?k] @ q)" unfolding reported_def by blast
  from s(1) only obtain n' where sn: "s = rotate n' c" unfolding onlyCycle_def by blast
  then have "?k \<in> set s" using kc by simp
  have "pre = []"
  proof (cases pre)
    case Nil
    then show ?thesis .
  next
    case (Cons p ps)
    with s(3) have "p = ?k" "q = ps @ s" by simp_all
    with s(4) \<open>?k \<in> set s\<close> show ?thesis by auto
  qed
  with s(3) have "hd s = ?k" by (cases s) auto
  with sn have "rotate n' c = c" using rotate_same_head[OF dc ne] by simp
  with sn s(2) have "cycleRecord names (rotate n c) = cycleRecord names c" by simp
  with one show ?thesis by simp
qed

lemma list_shapes:
  "s = [] \<or> (\<exists>x. s = [x]) \<or> (\<exists>x y. s = [x, y]) \<or> (\<exists>x y z. s = [x, y, z]) \<or>
   (\<exists>x y z w. s = [x, y, z, w]) \<or> (\<exists>x y z w v t. s = x # y # z # w # v # t)"
proof (cases s)
  case Nil
  then show ?thesis by simp
next
  case s1: (Cons x t1)
  show ?thesis
  proof (cases t1)
    case Nil
    with s1 show ?thesis by simp
  next
    case s2: (Cons y t2)
    show ?thesis
    proof (cases t2)
      case Nil
      with s1 s2 show ?thesis by simp
    next
      case s3: (Cons z t3)
      show ?thesis
      proof (cases t3)
        case Nil
        with s1 s2 s3 show ?thesis by simp
      next
        case s4: (Cons w t4)
        show ?thesis
        proof (cases t4)
          case Nil
          with s1 s2 s3 s4 show ?thesis by simp
        next
          case (Cons v t)
          with s1 s2 s3 s4 show ?thesis by simp
        qed
      qed
    qed
  qed
qed

lemma edge_cycleMap:
  "edge cycleMap u v \<longleftrightarrow>
     (u = ''/a'' \<and> v = ''/b'') \<or> (u = ''/b'' \<and> v = ''/c'') \<or> (u = ''/c'' \<and> v = ''/a'')"
  by (auto simp: edge_alt dependenciesOf_def cycleMap_def)

lemma edge_rotatedMap:
  "edge rotatedMap u v \<longleftrightarrow>
     (u = ''/a'' \<and> v = ''/b'') \<or> (u = ''/b'' \<and> v = ''/c'') \<or> (u = ''/c'' \<and> v = ''/a'')"
  by (auto simp: edge_alt dependenciesOf_def rotatedMap_def)

lemma edge_pairMap:
  "edge pairMap u v \<longleftrightarrow> (u = ''/a'' \<and> v = ''/b'') \<or> (u = ''/b'' \<and> v = ''/a'')"
  by (auto simp: edge_alt dependenciesOf_def pairMap_def)

lemma edge_ringMap:
  "edge ringMap u v \<longleftrightarrow>
     (u = ''/a'' \<and> v = ''/b'') \<or> (u = ''/b'' \<and> v = ''/c'') \<or>
     (u = ''/c'' \<and> v = ''/d'') \<or> (u = ''/d'' \<and> v = ''/a'')"
  by (auto simp: edge_alt dependenciesOf_def ringMap_def)

lemma edge_diamondMap:
  "edge diamondMap u v \<longleftrightarrow>
     (u = ''/a'' \<and> v = ''/b'') \<or> (u = ''/a'' \<and> v = ''/c'') \<or>
     (u = ''/b'' \<and> v = ''/d'') \<or> (u = ''/c'' \<and> v = ''/d'')"
  by (auto simp: edge_alt dependenciesOf_def diamondMap_def)

lemma three_cycle_only:
  assumes e: "\<And>u v. edge m u v \<longleftrightarrow>
     (u = ''/a'' \<and> v = ''/b'') \<or> (u = ''/b'' \<and> v = ''/c'') \<or> (u = ''/c'' \<and> v = ''/a'')"
  shows "onlyCycle m [''/a'', ''/b'', ''/c'']"
proof -
  have nxt: "edge m ''/a'' v \<longleftrightarrow> v = ''/b''" "edge m ''/b'' v \<longleftrightarrow> v = ''/c''"
    "edge m ''/c'' v \<longleftrightarrow> v = ''/a''" for v
    by (auto simp: e)
  have tgt: "edge m u v \<Longrightarrow> v = ''/a'' \<or> v = ''/b'' \<or> v = ''/c''" for u v
    by (auto simp: e)
  have c: "isCycle m [''/a'', ''/b'', ''/c'']" by (simp add: isCycle_def nxt)
  have "\<exists>n. s = rotate n [''/a'', ''/b'', ''/c'']" if s: "isCycle m s" for s
  proof -
    from s have h: "hd s = ''/a'' \<or> hd s = ''/b'' \<or> hd s = ''/c''"
      using tgt[of "last s" "hd s"] by (simp add: isCycle_def)
    have "s = [''/a'', ''/b'', ''/c''] \<or> s = [''/b'', ''/c'', ''/a''] \<or> s = [''/c'', ''/a'', ''/b'']"
      using list_shapes[of s] s h
      by (elim disjE exE) (simp_all add: isCycle_def nxt)
    moreover have "rotate 0 [''/a'', ''/b'', ''/c''] = [''/a'', ''/b'', ''/c'']" by simp
    moreover have "rotate (Suc 0) [''/a'', ''/b'', ''/c''] = [''/b'', ''/c'', ''/a'']" by simp
    moreover have "rotate (Suc (Suc 0)) [''/a'', ''/b'', ''/c''] = [''/c'', ''/a'', ''/b'']" by simp
    ultimately show ?thesis by metis
  qed
  with c show ?thesis unfolding onlyCycle_def by blast
qed

lemma onlyCycle_cycleMap: "onlyCycle cycleMap [''/a'', ''/b'', ''/c'']"
  by (rule three_cycle_only) (rule edge_cycleMap)

lemma onlyCycle_rotatedMap: "onlyCycle rotatedMap [''/a'', ''/b'', ''/c'']"
  by (rule three_cycle_only) (rule edge_rotatedMap)

lemma onlyCycle_pairMap: "onlyCycle pairMap [''/a'', ''/b'']"
proof -
  have nxt: "edge pairMap ''/a'' v \<longleftrightarrow> v = ''/b''" "edge pairMap ''/b'' v \<longleftrightarrow> v = ''/a''" for v
    by (auto simp: edge_pairMap)
  have tgt: "edge pairMap u v \<Longrightarrow> v = ''/a'' \<or> v = ''/b''" for u v
    by (auto simp: edge_pairMap)
  have c: "isCycle pairMap [''/a'', ''/b'']" by (simp add: isCycle_def nxt)
  have "\<exists>n. s = rotate n [''/a'', ''/b'']" if s: "isCycle pairMap s" for s
  proof -
    from s have h: "hd s = ''/a'' \<or> hd s = ''/b''"
      using tgt[of "last s" "hd s"] by (simp add: isCycle_def)
    have "s = [''/a'', ''/b''] \<or> s = [''/b'', ''/a'']"
      using list_shapes[of s] s h
      by (elim disjE exE) (simp_all add: isCycle_def nxt)
    moreover have "rotate 0 [''/a'', ''/b''] = [''/a'', ''/b'']" by simp
    moreover have "rotate (Suc 0) [''/a'', ''/b''] = [''/b'', ''/a'']" by simp
    ultimately show ?thesis by metis
  qed
  with c show ?thesis unfolding onlyCycle_def by blast
qed

lemma acyclicMap_diamondMap: "acyclicMap diamondMap"
  unfolding acyclicMap_def
proof (intro allI notI)
  fix s assume "isCycle diamondMap s"
  then show False using list_shapes[of s] by (auto simp: isCycle_def edge_diamondMap)
qed

lemma setsDistinct_samples:
  "setsDistinct cycleMap" "setsDistinct rotatedMap" "setsDistinct pairMap" "setsDistinct ringMap"
  "setsDistinct diamondMap"
  by (simp_all add: setsDistinct_def cycleMap_def rotatedMap_def pairMap_def ringMap_def diamondMap_def)

lemma rotations_of_three:
  "rotate n [A, B, C] = [A, B, C] \<or> rotate n [A, B, C] = [B, C, A] \<or> rotate n [A, B, C] = [C, A, B]"
proof -
  have r: "rotate n [A, B, C] = rotate (n mod 3) [A, B, C]"
    using rotate_conv_mod[of n "[A, B, C]"] by simp
  have "n mod 3 = 0 \<or> n mod 3 = Suc 0 \<or> n mod 3 = Suc (Suc 0)" by arith
  then show ?thesis
  proof (elim disjE)
    assume "n mod 3 = 0" with r show ?thesis by simp
  next
    assume "n mod 3 = Suc 0" with r show ?thesis by simp
  next
    assume "n mod 3 = Suc (Suc 0)" with r show ?thesis by simp
  qed
qed

lemma rotations_of_two:
  "rotate n [A, B] = [A, B] \<or> rotate n [A, B] = [B, A]"
proof -
  have r: "rotate n [A, B] = rotate (n mod 2) [A, B]"
    using rotate_conv_mod[of n "[A, B]"] by (simp add: numeral_2_eq_2)
  have "n mod 2 = 0 \<or> n mod 2 = Suc 0" by arith
  then show ?thesis
  proof (elim disjE)
    assume "n mod 2 = 0" with r show ?thesis by simp
  next
    assume "n mod 2 = Suc 0" with r show ?thesis by simp
  qed
qed

lemma detect_rotatedMap:
  "detectCircularDependencies rotatedMap sampleNames =
     [\<lparr>cd_path = [''b'', ''c'', ''a''], cd_severity = CycleWarning\<rparr>]"
  by code_simp

lemma ringMap_next:
  "edge ringMap ''/a'' v \<longleftrightarrow> v = ''/b''"
  "edge ringMap ''/b'' v \<longleftrightarrow> v = ''/c''"
  "edge ringMap ''/c'' v \<longleftrightarrow> v = ''/d''"
  "edge ringMap ''/d'' v \<longleftrightarrow> v = ''/a''"
  by (auto simp: edge_ringMap)

lemma ringMap_target: "edge ringMap u v \<Longrightarrow> v = ''/a'' \<or> v = ''/b'' \<or> v = ''/c'' \<or> v = ''/d''"
  by (auto simp: edge_ringMap)

lemma onlyCycle_ringMap: "onlyCycle ringMap [''/a'', ''/b'', ''/c'', ''/d'']"
proof -
  have c: "isCycle ringMap [''/a'', ''/b'', ''/c'', ''/d'']" by (simp add: isCycle_def ringMap_next)
  have "\<exists>n. s = rotate n [''/a'', ''/b'', ''/c'', ''/d'']" if s: "isCycle ringMap s" for s
  proof -
    from s have h: "hd s = ''/a'' \<or> hd s = ''/b'' \<or> hd s = ''/c'' \<or> hd s = ''/d''"
      using ringMap_target[of "last s" "hd s"] by (simp add: isCycle_def)
    have "s = [''/a'', ''/b'', ''/c'', ''/d''] \<or> s = [''/b'', ''/c'', ''/d'', ''/a''] \<or>
          s = [''/c'', ''/d'', ''/a'', ''/b''] \<or> s = [''/d'', ''/a'', ''/b'', ''/c'']"
      using list_shapes[of s] s h
      by (elim disjE exE) (simp_all add: isCycle_def ringMap_next)
    moreover have "rotate 0 [''/a'', ''/b'', ''/c'', ''/d''] = [''/a'', ''/b'', ''/c'', ''/d'']" by simp
    moreover have "rotate (Suc 0) [''/a'', ''/b'', ''/c'', ''/d''] = [''/b'', ''/c'', ''/d'', ''/a'']" by simp
    moreover have "rotate (Suc (Suc 0)) [''/a'', ''/b'', ''/c'', ''/d''] = [''/c'', ''/d'', ''/a'', ''/b'']" by simp
    moreover have "rotate (Suc (Suc (Suc 0))) [''/a'', ''/b'', ''/c'', ''/d''] = [''/d'', ''/a'', ''/b'', ''/c'']" by simp
    ultimately show ?thesis by metis
  qed
  with c show ?thesis unfolding onlyCycle_def by blast
qed

lemma sample_labels:
  "moduleName sampleNames ''/a'' = ''a''" "moduleName sampleNames ''/b'' = ''b''"
  "moduleName sampleNames ''/c'' = ''c''" "moduleName sampleNames ''/d'' = ''d''"
  by (simp_all add: moduleName_def sampleNames_def)

lemma sample_first_keys:
  "cycleMap \<noteq> []" "fst (hd cycleMap) = hd [''/a'', ''/b'', ''/c'']"
  "pairMap \<noteq> []" "fst (hd pairMap) = hd [''/a'', ''/b'']"
  "ringMap \<noteq> []" "fst (hd ringMap) = hd [''/a'', ''/b'', ''/c'', ''/d'']"
  by (simp_all add: cycleMap_def pairMap_def ringMap_def)

text \<open>
  C1, as stated, fails: the only cycle of the example map is
  \<open>/a \<rightarrow> /b \<rightarrow> /c \<rightarrow> /a\<close>, its key \<open>/b\<close> was inserted first, and the one record
  that the detector returns has the path \<open>[b, c, a]\<close>, not \<open>[a, b, c]\<close>.
\<close>

theorem cycle_path_counterexample:
  "setsDistinct rotatedMap \<and> onlyCycle rotatedMap [''/a'', ''/b'', ''/c''] \<and>
   map (moduleName sampleNames) [''/a'', ''/b'', ''/c''] = [''a'', ''b'', ''c''] \<and>
   detectCircularDependencies rotatedMap sampleNames =
     [\<lparr>cd_path = [''b'', ''c'', ''a''], cd_severity = CycleWarning\<rparr>]"
  using setsDistinct_samples(2) onlyCycle_rotatedMap detect_rotatedMap by (simp add: sample_labels)

text \<open>
  C1, amended: for every dependency map without a cycle the detector returns the empty list.
  For every map whose only cycle is \<open>c\<close> (every cycle of the map is a rotation of \<open>c\<close>)
  and whose dependency sets list each member once, it returns exactly one record: its path
  is the labels of a rotation of \<open>c\<close>, namely of \<open>c\<close> itself when the first key of the
  map is the first node of \<open>c\<close>, and its severity is critical when \<open>c\<close> has more than 3
  nodes and warning otherwise; so for the only cycle \<open>A \<rightarrow> B \<rightarrow> C \<rightarrow> A\<close> the path is
  \<open>[A, B, C]\<close>, \<open>[B, C, A]\<close> or \<open>[C, A, B]\<close> with severity warning, and for the only
  cycle \<open>A \<rightarrow> B \<rightarrow> A\<close> it is \<open>[A, B]\<close> or \<open>[B, A]\<close> with severity warning. Every
  record that the detector returns, for any map, is critical when its path has more than 3
  members and a warning otherwise.
\<close>

theorem cycle_detection:
  "(acyclicMap m \<longrightarrow> detectCircularDependencies m names = []) \<and>
   (setsDistinct m \<and> onlyCycle m c \<longrightarrow>
      (\<exists>n. detectCircularDependencies m names =
         [\<lparr>cd_path = map (moduleName names) (rotate n c),
           cd_severity = (if 3 < length c then CycleCritical else CycleWarning)\<rparr>])) \<and>
   (setsDistinct m \<and> onlyCycle m c \<and> m \<noteq> [] \<and> fst (hd m) = hd c \<longrightarrow>
      detectCircularDependencies m names =
         [\<lparr>cd_path = map (moduleName names) c,
           cd_severity = (if 3 < length c then CycleCritical else CycleWarning)\<rparr>]) \<and>
   (setsDistinct m \<and> onlyCycle m [A, B, C] \<longrightarrow>
      (\<exists>p \<in> {[A, B, C], [B, C, A], [C, A, B]}. detectCircularDependencies m names =
         [\<lparr>cd_path = map (moduleName names) p, cd_severity = CycleWarning\<rparr>])) \<and>
   (setsDistinct m \<and> onlyCycle m [A, B] \<longrightarrow>
      (\<exists>p \<in> {[A, B], [B, A]}. detectCircularDependencies m names =
         [\<lparr>cd_path = map (moduleName names) p, cd_severity = CycleWarning\<rparr>])) \<and>
   (\<forall>r \<in> set (detectCircularDependencies m names).
      cd_severity r = (if 3 < length (cd_path r) then CycleCritical else CycleWarning))"
proof -
  have rot: "\<exists>n. detectCircularDependencies m names =
         [\<lparr>cd_path = map (moduleName names) (rotate n c'),
           cd_severity = (if 3 < length c' then CycleCritical else CycleWarning)\<rparr>]"
    if "setsDistinct m" "onlyCycle m c'" for c'
    using detect_only_cycle[OF that(2) that(1), of names] by (simp add: cycleRecord_def)
  have first: "detectCircularDependencies m names =
         [\<lparr>cd_path = map (moduleName names) c,
           cd_severity = (if 3 < length c then CycleCritical else CycleWarning)\<rparr>]"
    if "setsDistinct m" "onlyCycle m c" "m \<noteq> []" "fst (hd m) = hd c"
    using detect_first_key[OF that(2) that(1) that(3) that(4), of names] by (simp add: cycleRecord_def)
  have three: "\<exists>p \<in> {[A, B, C], [B, C, A], [C, A, B]}. detectCircularDependencies m names =
         [\<lparr>cd_path = map (moduleName names) p, cd_severity = CycleWarning\<rparr>]"
    if "setsDistinct m" "onlyCycle m [A, B, C]"
  proof -
    from rot[OF that] obtain n where n: "detectCircularDependencies m names =
         [\<lparr>cd_path = map (moduleName names) (rotate n [A, B, C]), cd_severity = CycleWarning\<rparr>]"
      by auto
    from rotations_of_three[of n A B C] show ?thesis
    proof (elim disjE)
      assume "rotate n [A, B, C] = [A, B, C]"
      with n show ?thesis by simp
    next
      assume "rotate n [A, B, C] = [B, C, A]"
      with n show ?thesis by simp
    next
      assume "rotate n [A, B, C] = [C, A, B]"
      with n show ?thesis by simp
    qed
  qed
  have two: "\<exists>p \<in> {[A, B], [B, A]}. detectCircularDependencies m names =
         [\<lparr>cd_path = map (moduleName names) p, cd_severity = CycleWarning\<rparr>]"
    if "setsDistinct m" "onlyCycle m [A, B]"
  proof -
    from rot[OF that] obtain n where n: "detectCircularDependencies m names =
         [\<lparr>cd_path = map (moduleName names) (rotate n [A, B]), cd_severity = CycleWarning\<rparr>]"
      by auto
    from rotations_of_two[of n A B] show ?thesis
    proof (elim disjE)
      assume "rotate n [A, B] = [A, B]"
      with n show ?thesis by simp
    next
      assume "rotate n [A, B] = [B, A]"
      with n show ?thesis by simp
    qed
  qed
  have sev: "\<forall>r \<in> set (detectCircularDependencies m names).
      cd_severity r = (if 3 < length (cd_path r) then CycleCritical else CycleWarning)"
    using detect_severity[of _ m names] by blast
  from detect_acyclic[of m names] rot[of c] first three two sev show ?thesis by blast
qed

text \<open>C1, witness: a diamond without a cycle, and maps whose only cycle has three, two and
  four nodes, the first node of the cycle being the first key.\<close>

theorem cycle_detection_witness:
  "acyclicMap diamondMap \<and> detectCircularDependencies diamondMap sampleNames = [] \<and>
   setsDistinct cycleMap \<and> onlyCycle cycleMap [''/a'', ''/b'', ''/c''] \<and>
   detectCircularDependencies cycleMap sampleNames =
     [\<lparr>cd_path = [''a'', ''b'', ''c''], cd_severity = CycleWarning\<rparr>] \<and>
   setsDistinct pairMap \<and> onlyCycle pairMap [''/a'', ''/b''] \<and>
   detectCircularDependencies pairMap sampleNames =
     [\<lparr>cd_path = [''a'', ''b''], cd_severity = CycleWarning\<rparr>] \<and>
   setsDistinct ringMap \<and> onlyCycle ringMap [''/a'', ''/b'', ''/c'', ''/d''] \<and>
   detectCircularDependencies ringMap sampleNames =
     [\<lparr>cd_path = [''a'', ''b'', ''c'', ''d''], cd_severity = CycleCritical\<rparr>]"
proof -
  have 1: "detectCircularDependencies diamondMap sampleNames = []"
    using cycle_detection[where m = diamondMap and names = sampleNames, THEN conjunct1, THEN mp, OF acyclicMap_diamondMap] .
  have "setsDistinct cycleMap \<and> onlyCycle cycleMap [''/a'', ''/b'', ''/c''] \<and> cycleMap \<noteq> [] \<and>
        fst (hd cycleMap) = hd [''/a'', ''/b'', ''/c'']"
    using setsDistinct_samples(1) onlyCycle_cycleMap sample_first_keys(1,2) by (intro conjI)
  from cycle_detection[where m = cycleMap and names = sampleNames and c = "[''/a'', ''/b'', ''/c'']",
      THEN conjunct2, THEN conjunct2, THEN conjunct1, THEN mp, OF this]
  have 2: "detectCircularDependencies cycleMap sampleNames =
     [\<lparr>cd_path = [''a'', ''b'', ''c''], cd_severity = CycleWarning\<rparr>]"
    by (simp add: sample_labels)
  have "setsDistinct pairMap \<and> onlyCycle pairMap [''/a'', ''/b''] \<and> pairMap \<noteq> [] \<and>
        fst (hd pairMap) = hd [''/a'', ''/b'']"
    using setsDistinct_samples(3) onlyCycle_pairMap sample_first_keys(3,4) by (intro conjI)
  from cycle_detection[where m = pairMap and names = sampleNames and c = "[''/a'', ''/b'']",
      THEN conjunct2, THEN conjunct2, THEN conjunct1, THEN mp, OF this]
  have 3: "detectCircularDependencies pairMap sampleNames =
     [\<lparr>cd_path = [''a'', ''b''], cd_severity = CycleWarning\<rparr>]"
    by (simp add: sample_labels)
  have "setsDistinct ringMap \<and> onlyCycle ringMap [''/a'', ''/b'', ''/c'', ''/d''] \<and> ringMap \<noteq> [] \<and>
        fst (hd ringMap) = hd [''/a'', ''/b'', ''/c'', ''/d'']"
    using setsDistinct_samples(4) onlyCycle_ringMap sample_first_keys(5,6) by (intro conjI)
  from cycle_detection[where m = ringMap and names = sampleNames and c = "[''/a'', ''/b'', ''/c'', ''/d'']",
      THEN conjunct2, THEN conjunct2, THEN conjunct1, THEN mp, OF this]
  have 4: "detectCircularDependencies ringMap sampleNames =
     [\<lparr>cd_path = [''a'', ''b'', ''c'', ''d''], cd_severity = CycleCritical\<rparr>]"
    by (simp add: sample_labels)
  from 1 2 3 4 acyclicMap_diamondMap setsDistinct_samples onlyCycle_cycleMap onlyCycle_pairMap
    onlyCycle_ringMap
  show ?thesis by (intro conjI)
qed

end
